theory Spec2Isabelle
  imports Main "HOL-Library.Word"
begin

unbundle bit_operations_syntax

section \<open>Machine types shared by the table system\<close>

text \<open>
  \<open>uInt\<close> is a 32-bit unsigned integer, \<open>rownr_t\<close> a 64-bit unsigned integer and
  \<open>uChar\<close> a byte.  Arithmetic on them wraps around, as it does in C++.
\<close>

type_synonym uInt = "32 word"
type_synonym rownr_t = "64 word"
type_synonym uChar = "8 word"

text \<open>
  A computation returns a value or stops.  It stops with one of the exceptions the code
  throws, or at \<open>IndexFault\<close>, which is no exception: it marks an access outside a
  \<open>Block\<close> or a C array.  \<open>Block::operator[]\<close> checks its index only when the
  library is built with index checking and the code around these accesses checks
  nothing, so the program reports no error there and C++ leaves its behaviour undefined.
\<close>

datatype error =
    AipsError
  | DataManInternalError string
  | IndexError rownr_t
  | TableError
  | TableInvOper
  | IndexFault

text \<open>The exceptions, as opposed to the unchecked access.\<close>

fun thrown :: "error \<Rightarrow> bool" where
  "thrown IndexFault = False"
| "thrown _ = True"

section \<open>ISMBucket::getSplit\<close>

text \<open>
  The loop of \<open>getSplit\<close>.  \<open>nr\<close> is \<open>rowLeng.nelements()\<close>; the loop reads
  \<open>cumLeng[i-1]\<close>, \<open>cumLeng[i]\<close> and \<open>rowLeng[i]\<close> before it tests \<open>i < nr-1\<close>.
  All lengths are \<open>uInt\<close>, so the sums and differences wrap.
\<close>

function getSplit_loop ::
  "uInt \<Rightarrow> uInt list \<Rightarrow> uInt list \<Rightarrow> nat \<Rightarrow> uInt \<Rightarrow> error + (nat \<times> uInt)" where
  "getSplit_loop totLeng rowLeng cumLeng i diff =
     (if 0 < i \<and> i < length rowLeng \<and> i < length cumLeng then
        (if cumLeng ! (i - 1) < rowLeng ! i + totLeng - cumLeng ! i \<and> i < length rowLeng - 1
         then getSplit_loop totLeng rowLeng cumLeng (i + 1)
                (rowLeng ! i + totLeng - cumLeng ! i - cumLeng ! (i - 1))
         else Inr (i, diff))
      else Inl IndexFault)"
  by pat_completeness auto
termination
  by (relation "measure (\<lambda>(totLeng, rowLeng, cumLeng, i, diff). length rowLeng - i)") auto

declare getSplit_loop.simps [simp del]

definition getSplit :: "uInt \<Rightarrow> uInt list \<Rightarrow> uInt list \<Rightarrow> error + nat" where
  "getSplit totLeng rowLeng cumLeng =
     (if length rowLeng \<le> 2 then Inr 1
      else case getSplit_loop totLeng rowLeng cumLeng 1 0 of
             Inl e \<Rightarrow> Inl e
           | Inr (i, diff) \<Rightarrow>
               (if diff > 0 then
                  (if cumLeng ! (i - 1) + cumLeng ! i - rowLeng ! i - totLeng > diff
                   then Inr (i - 1) else Inr i)
                else Inr i))"

text \<open>
  The sizes the comments of \<open>getSplit\<close> speak of, as mathematical integers: splitting at
  index \<open>i\<close> gives a left bucket of \<open>cumLeng[i-1]\<close> bytes and a right bucket of
  \<open>rowLeng[i] + totLeng - cumLeng[i]\<close> bytes.
\<close>

definition leftSize :: "uInt list \<Rightarrow> nat \<Rightarrow> int" where
  "leftSize cumLeng i = uint (cumLeng ! (i - 1))"

definition rightSize :: "uInt \<Rightarrow> uInt list \<Rightarrow> uInt list \<Rightarrow> nat \<Rightarrow> int" where
  "rightSize totLeng rowLeng cumLeng i = uint (rowLeng ! i) + uint totLeng - uint (cumLeng ! i)"

definition sizeDiff :: "uInt \<Rightarrow> uInt list \<Rightarrow> uInt list \<Rightarrow> nat \<Rightarrow> int" where
  "sizeDiff totLeng rowLeng cumLeng i =
     \<bar>leftSize cumLeng i - rightSize totLeng rowLeng cumLeng i\<bar>"

section \<open>StIndArray: the indirect array store\<close>

text \<open>
  The data type codes of \<open>casa/Utilities/DataType.h\<close>.  The twelve codes handled by the
  switches of \<open>StIndArray\<close> are the ones named in its source; the other codes of the
  enumeration reach the \<open>default\<close> branch of a switch, where it has one.
\<close>

datatype DataType =
    TpBool | TpChar | TpUChar | TpShort | TpUShort | TpInt | TpUInt
  | TpFloat | TpDouble | TpComplex | TpDComplex | TpString | TpTable
  | TpArrayBool | TpArrayChar | TpArrayUChar | TpArrayShort | TpArrayUShort
  | TpArrayInt | TpArrayUInt | TpArrayFloat | TpArrayDouble | TpArrayComplex
  | TpArrayDComplex | TpArrayString | TpRecord | TpOther | TpQuantity
  | TpArrayQuantity | TpInt64 | TpArrayInt64

type_synonym IPosition = "int list"

record StIndArray =
  fileOffset_p :: int
  arrOffset_p :: uInt
  shape_p :: IPosition

text \<open>
  \<open>StManArrayFile\<close> is a collaborator of \<open>StIndArray\<close>.  Its state is a type parameter
  \<open>'f\<close> and its \<open>putShape\<close> a function parameter: given the file, the shape, the file
  offset (passed by reference) and the element type (the type of the null pointer
  argument), it returns the offset of the array relative to the shape, the new file offset
  and the new file.
\<close>

type_synonym 'f putShape_t = "'f \<Rightarrow> IPosition \<Rightarrow> int \<Rightarrow> DataType \<Rightarrow> uInt \<times> int \<times> 'f"

definition setShape_put ::
  "'f putShape_t \<Rightarrow> 'f \<Rightarrow> StIndArray \<Rightarrow> DataType \<Rightarrow> bool \<times> StIndArray \<times> 'f" where
  "setShape_put putShape ios this T =
     (case putShape ios (shape_p this) (fileOffset_p this) T of
        (n, off, ios') \<Rightarrow> (True, this\<lparr>fileOffset_p := off, arrOffset_p := n\<rparr>, ios'))"

text \<open>
  \<open>StIndArray::setShape\<close>.  The switch has no \<open>default\<close> branch: for a data type it
  does not name, control falls through to \<open>return True\<close>.
\<close>

definition setShape ::
  "'f putShape_t \<Rightarrow> 'f \<Rightarrow> StIndArray \<Rightarrow> DataType \<Rightarrow> IPosition \<Rightarrow> bool \<times> StIndArray \<times> 'f" where
  "setShape putShape ios this dataType shape =
     (if arrOffset_p this \<noteq> 0 \<and> shape_p this = shape then (False, this, ios)
      else
        let this1 = this\<lparr>shape_p := shape\<rparr> in
        (case dataType of
           TpBool \<Rightarrow> setShape_put putShape ios this1 TpBool
         | TpUChar \<Rightarrow> setShape_put putShape ios this1 TpUChar
         | TpShort \<Rightarrow> setShape_put putShape ios this1 TpShort
         | TpUShort \<Rightarrow> setShape_put putShape ios this1 TpUShort
         | TpInt \<Rightarrow> setShape_put putShape ios this1 TpInt
         | TpUInt \<Rightarrow> setShape_put putShape ios this1 TpUInt
         | TpInt64 \<Rightarrow> setShape_put putShape ios this1 TpInt64
         | TpFloat \<Rightarrow> setShape_put putShape ios this1 TpFloat
         | TpDouble \<Rightarrow> setShape_put putShape ios this1 TpDouble
         | TpComplex \<Rightarrow> setShape_put putShape ios this1 TpComplex
         | TpDComplex \<Rightarrow> setShape_put putShape ios this1 TpDComplex
         | TpString \<Rightarrow> setShape_put putShape ios this1 TpString
         | _ \<Rightarrow> (True, this1, ios)))"

text \<open>The data types named by the switches of \<open>StIndArray\<close>.\<close>

definition handledType :: "DataType \<Rightarrow> bool" where
  "handledType T =
     (T = TpBool \<or> T = TpUChar \<or> T = TpShort \<or> T = TpUShort \<or> T = TpInt \<or> T = TpUInt
      \<or> T = TpInt64 \<or> T = TpFloat \<or> T = TpDouble \<or> T = TpComplex \<or> T = TpDComplex
      \<or> T = TpString)"

text \<open>
  The other operations issue one call to \<open>StManArrayFile\<close> or throw.  The model returns
  the call: the element type, the file offsets and the number of elements.
\<close>

datatype IOcall =
    IOget DataType int nat int
  | IOput DataType int nat int
  | IOcopyArray DataType int int int

text \<open>
  Modelled from the spec: \<open>IPosition::product\<close> (casa/Arrays/IPosition) is outside
  these sources.  The typed get and put of the spec move ``the flattened payload'' of a
  cell; its number of elements is the product of the axis lengths of the shape, and 0 for
  a shape without axes.
\<close>

definition product :: "IPosition \<Rightarrow> int" where
  "product shape = (if shape = [] then 0 else prod_list shape)"

definition checkShape :: "IPosition \<Rightarrow> IPosition \<Rightarrow> error + unit" where
  "checkShape userArrayShape tableArrayShape =
     (if userArrayShape \<noteq> tableArrayShape
      then Inl (DataManInternalError ''StManIndArray::get/put shapes not conforming'')
      else Inr ())"

definition copyData :: "StIndArray \<Rightarrow> DataType \<Rightarrow> StIndArray \<Rightarrow> error + IOcall" where
  "copyData this dataType other =
     (if shape_p this \<noteq> shape_p other
      then Inl (DataManInternalError ''StManIndArray::copyData shapes not conforming'')
      else if handledType dataType
      then Inr (IOcopyArray dataType (fileOffset_p this + uint (arrOffset_p this))
                  (fileOffset_p other + uint (arrOffset_p other)) (product (shape_p this)))
      else Inl (DataManInternalError ''Unhandled data type in StIndArray::copyData''))"

definition getArrayV :: "StIndArray \<Rightarrow> IPosition \<Rightarrow> DataType \<Rightarrow> error + IOcall" where
  "getArrayV this arrShape dtype =
     (case checkShape arrShape (shape_p this) of
        Inl e \<Rightarrow> Inl e
      | Inr _ \<Rightarrow>
          if handledType dtype
          then Inr (IOget dtype (fileOffset_p this + uint (arrOffset_p this)) 0
                      (product (shape_p this)))
          else Inl (DataManInternalError ''Unhandled data type in StIndArray::getArrayV''))"

definition putArrayV :: "StIndArray \<Rightarrow> IPosition \<Rightarrow> DataType \<Rightarrow> error + IOcall" where
  "putArrayV this arrShape dtype =
     (case checkShape arrShape (shape_p this) of
        Inl e \<Rightarrow> Inl e
      | Inr _ \<Rightarrow>
          if handledType dtype
          then Inr (IOput dtype (fileOffset_p this + uint (arrOffset_p this)) 0
                      (product (shape_p this)))
          else Inl (DataManInternalError ''Unhandled data type in StIndArray::putArrayV''))"

text \<open>
  \<open>getSliceV\<close> and \<open>putSliceV\<close> hand the slice to \<open>getSliceData\<close> and
  \<open>putSliceData\<close> with the vector accessor of the element type; what these do with the
  file is the parameter \<open>sliceData\<close>.
\<close>

definition getSliceV :: "(DataType \<Rightarrow> error + 'r) \<Rightarrow> DataType \<Rightarrow> error + 'r" where
  "getSliceV getSliceData dtype =
     (if handledType dtype then getSliceData dtype
      else Inl (DataManInternalError ''Unhandled data type in StIndArray::getSliceV''))"

definition putSliceV :: "(DataType \<Rightarrow> error + 'r) \<Rightarrow> DataType \<Rightarrow> error + 'r" where
  "putSliceV putSliceData dtype =
     (if handledType dtype then putSliceData dtype
      else Inl (DataManInternalError ''Unhandled data type in StIndArray::putSliceV''))"

text \<open>
  An instance of \<open>putShape\<close> for evaluating \<open>setShape\<close> on concrete inputs: the file is
  its length; the shape is written at the end of the file as a reference count, the
  dimensionality and the axes (4 bytes each), followed by room for the elements.
\<close>

definition putShape_atEnd :: "int putShape_t" where
  "putShape_atEnd leng shape off T =
     (word_of_nat (8 + 4 * length shape), leng, leng + 8 + 4 * int (length shape) + product shape)"

section \<open>RefTable: views over a root table\<close>

text \<open>
  The root table of a view, as far as \<open>RefTable\<close> looks at it: its name, its number of
  rows and the names of its columns.
\<close>

record PlainTable =
  tableName :: string
  nrow :: rownr_t
  columns :: "string list"

text \<open>
  The members of \<open>RefTable\<close> (with \<open>nrrow_p\<close> of \<open>BaseTable\<close>).  \<open>rowStorage_p\<close>
  is the whole vector; the rows of the view are its first \<open>nrrow_p\<close> elements.  Row
  numbers are 64-bit words; counts of vector elements and indices into vectors are natural
  numbers (a vector does not hold \<open>2^64\<close> elements, so they do not wrap).
\<close>

record RefTable =
  baseTabPtr_p :: PlainTable
  nrrow_p :: nat
  rowOrd_p :: bool
  rowStorage_p :: "rownr_t list"
  nameMap_p :: "(string \<times> string) list"
  changed_p :: bool

datatype BaseTable = Plain PlainTable | Ref RefTable

fun root :: "BaseTable \<Rightarrow> PlainTable" where
  "root (Plain p) = p"
| "root (Ref t) = baseTabPtr_p t"

fun btp_nrow :: "BaseTable \<Rightarrow> nat" where
  "btp_nrow (Plain p) = unat (nrow p)"
| "btp_nrow (Ref t) = nrrow_p t"

definition rows :: "RefTable \<Rightarrow> rownr_t list" where
  "rows t = take (nrrow_p t) (rowStorage_p t)"

subsection \<open>adjustRownrs and the constructor from a row vector\<close>

text \<open>The loop \<open>rownrs[i] = rows[rownrs[i]]\<close> of \<open>RefTable::adjustRownrs\<close>.\<close>

fun adjust_loop :: "rownr_t list \<Rightarrow> rownr_t list \<Rightarrow> error + rownr_t list" where
  "adjust_loop rs [] = Inr []"
| "adjust_loop rs (r # rownrs) =
     (if unat r < length rs then
        (case adjust_loop rs rownrs of
           Inl e \<Rightarrow> Inl e
         | Inr rownrs' \<Rightarrow> Inr (rs ! unat r # rownrs'))
      else Inl IndexFault)"

text \<open>The loop that clears \<open>rowOrder\<close> at the first \<open>rownrs[i] <= rownrs[i-1]\<close>.\<close>

fun order_loop :: "rownr_t list \<Rightarrow> bool" where
  "order_loop (a # b # rownrs) = (if b \<le> a then False else order_loop (b # rownrs))"
| "order_loop _ = True"

definition adjustRownrs ::
  "RefTable \<Rightarrow> nat \<Rightarrow> rownr_t list \<Rightarrow> bool \<Rightarrow> error + (bool \<times> rownr_t list)" where
  "adjustRownrs this nr rowStorage determineOrder =
     (if \<not> nr \<le> length rowStorage then Inl AipsError
      else case adjust_loop (rowStorage_p this) (take nr rowStorage) of
             Inl e \<Rightarrow> Inl e
           | Inr rownrs \<Rightarrow> Inr (if determineOrder then order_loop rownrs else True, rownrs))"

text \<open>
  \<open>btp->adjustRownrs\<close> is virtual.  For a table that is not a view it is
  \<open>BaseTable::adjustRownrs\<close>, which is outside these sources: it leaves the row numbers as
  they are, and the flag it returns is the parameter \<open>plainOrd\<close>.
\<close>

fun btp_adjustRownrs ::
  "bool \<Rightarrow> BaseTable \<Rightarrow> nat \<Rightarrow> rownr_t list \<Rightarrow> bool \<Rightarrow> error + (bool \<times> rownr_t list)" where
  "btp_adjustRownrs plainOrd (Plain p) nr rowStorage determineOrder = Inr (plainOrd, rowStorage)"
| "btp_adjustRownrs plainOrd (Ref t) nr rowStorage determineOrder =
     adjustRownrs t nr rowStorage determineOrder"

text \<open>The check loop of the constructor: the first row number not below \<open>nmax\<close> is thrown.\<close>

fun checkRownrs :: "nat \<Rightarrow> rownr_t list \<Rightarrow> error + unit" where
  "checkRownrs nmax [] = Inr ()"
| "checkRownrs nmax (r # rs) =
     (if unat r \<ge> nmax then Inl (IndexError r) else checkRownrs nmax rs)"

text \<open>
  \<open>RefTable::RefTable (BaseTable* btp, const Vector<rownr_t>& rownrs)\<close>.  The name map
  is built by \<open>setup\<close> from the description of \<open>btp\<close>; it is the parameter \<open>nm\<close>.
\<close>

definition RefTable_fromRows ::
  "bool \<Rightarrow> (string \<times> string) list \<Rightarrow> BaseTable \<Rightarrow> rownr_t list \<Rightarrow> error + RefTable" where
  "RefTable_fromRows plainOrd nm btp rownrs =
     (let this = \<lparr>baseTabPtr_p = root btp, nrrow_p = length rownrs,
                  rowOrd_p = True, rowStorage_p = rownrs, nameMap_p = nm, changed_p = True\<rparr>
      in case checkRownrs (btp_nrow btp) (rows this) of
           Inl e \<Rightarrow> Inl e
         | Inr _ \<Rightarrow>
             (case btp_adjustRownrs plainOrd btp (nrrow_p this) (rowStorage_p this) True of
                Inl e \<Rightarrow> Inl e
              | Inr (ord, rowStorage) \<Rightarrow>
                  Inr (this\<lparr>rowOrd_p := ord, rowStorage_p := rowStorage\<rparr>)))"

text \<open>
  A view's row map is valid when its rows are row numbers of its root table.
\<close>

definition validRowMap :: "RefTable \<Rightarrow> bool" where
  "validRowMap t =
     (nrrow_p t \<le> length (rowStorage_p t)
      \<and> list_all (\<lambda>r. r < nrow (baseTabPtr_p t)) (rows t))"

fun validBase :: "BaseTable \<Rightarrow> bool" where
  "validBase (Plain p) = True"
| "validBase (Ref t) = validRowMap t"

subsection \<open>Set algebra on two ascending row vectors\<close>

text \<open>
  \<open>rows[nrrow_p++] = row\<close>.  The output vector was sized before the loop; a write past
  its end is a fault.
\<close>

definition storeRow :: "RefTable \<Rightarrow> rownr_t \<Rightarrow> error + RefTable" where
  "storeRow t row =
     (if nrrow_p t < length (rowStorage_p t)
      then Inr (t\<lparr>rowStorage_p := (rowStorage_p t)[nrrow_p t := row], nrrow_p := nrrow_p t + 1\<rparr>)
      else Inl IndexFault)"

text \<open>
  \<open>rowStorage_p.resize (allrow)\<close> allocates the output vector; what it holds before the
  loop writes it is not looked at, and is zero here.
\<close>

definition resizeStorage :: "RefTable \<Rightarrow> nat \<Rightarrow> RefTable" where
  "resizeStorage t allrow = t\<lparr>rowStorage_p := replicate allrow 0\<rparr>"

text \<open>
  The next element of an index array, or \<open>std::numeric_limits<rownr_t>::max()\<close> at its
  end.  The arrays are passed with their lengths \<open>nr1\<close> and \<open>nr2\<close>; here they are lists
  and the lengths are theirs.
\<close>

definition rownr_max :: rownr_t where
  "rownr_max = - 1"

definition nextRow :: "rownr_t list \<Rightarrow> nat \<Rightarrow> rownr_t" where
  "nextRow inx i = (if i \<ge> length inx then rownr_max else inx ! i)"

function refAnd_loop ::
  "rownr_t list \<Rightarrow> rownr_t list \<Rightarrow> nat \<Rightarrow> nat \<Rightarrow> RefTable \<Rightarrow> error + RefTable" where
  "refAnd_loop inx1 inx2 i1 i2 t =
     (if nextRow inx1 i1 = nextRow inx2 i2 then
        (if nextRow inx1 i1 = rownr_max then Inr t
         else case storeRow t (nextRow inx1 i1) of
                Inl e \<Rightarrow> Inl e
              | Inr t' \<Rightarrow> refAnd_loop inx1 inx2 (i1 + 1) (i2 + 1) t')
      else if nextRow inx1 i1 < nextRow inx2 i2
      then refAnd_loop inx1 inx2 (i1 + 1) i2 t
      else refAnd_loop inx1 inx2 i1 (i2 + 1) t)"
  by pat_completeness auto
termination
  by (relation "measure (\<lambda>(inx1, inx2, i1, i2, t). (length inx1 - i1) + (length inx2 - i2))")
     (auto simp: nextRow_def rownr_max_def less_le word_order.extremum_unique split: if_splits)

function refOr_loop ::
  "rownr_t list \<Rightarrow> rownr_t list \<Rightarrow> nat \<Rightarrow> nat \<Rightarrow> RefTable \<Rightarrow> error + RefTable" where
  "refOr_loop inx1 inx2 i1 i2 t =
     (if nextRow inx1 i1 = nextRow inx2 i2 then
        (if nextRow inx1 i1 = rownr_max then Inr t
         else case storeRow t (nextRow inx1 i1) of
                Inl e \<Rightarrow> Inl e
              | Inr t' \<Rightarrow> refOr_loop inx1 inx2 (i1 + 1) (i2 + 1) t')
      else if nextRow inx1 i1 < nextRow inx2 i2
      then (case storeRow t (nextRow inx1 i1) of
              Inl e \<Rightarrow> Inl e
            | Inr t' \<Rightarrow> refOr_loop inx1 inx2 (i1 + 1) i2 t')
      else (case storeRow t (nextRow inx2 i2) of
              Inl e \<Rightarrow> Inl e
            | Inr t' \<Rightarrow> refOr_loop inx1 inx2 i1 (i2 + 1) t'))"
  by pat_completeness auto
termination
  by (relation "measure (\<lambda>(inx1, inx2, i1, i2, t). (length inx1 - i1) + (length inx2 - i2))")
     (auto simp: nextRow_def rownr_max_def less_le word_order.extremum_unique split: if_splits)

function refSub_loop ::
  "rownr_t list \<Rightarrow> rownr_t list \<Rightarrow> nat \<Rightarrow> nat \<Rightarrow> RefTable \<Rightarrow> error + RefTable" where
  "refSub_loop inx1 inx2 i1 i2 t =
     (if nextRow inx1 i1 = nextRow inx2 i2 then
        (if nextRow inx1 i1 = rownr_max then Inr t
         else refSub_loop inx1 inx2 (i1 + 1) (i2 + 1) t)
      else if nextRow inx1 i1 < nextRow inx2 i2
      then (case storeRow t (nextRow inx1 i1) of
              Inl e \<Rightarrow> Inl e
            | Inr t' \<Rightarrow> refSub_loop inx1 inx2 (i1 + 1) i2 t')
      else refSub_loop inx1 inx2 i1 (i2 + 1) t)"
  by pat_completeness auto
termination
  by (relation "measure (\<lambda>(inx1, inx2, i1, i2, t). (length inx1 - i1) + (length inx2 - i2))")
     (auto simp: nextRow_def rownr_max_def less_le word_order.extremum_unique split: if_splits)

function refXor_loop ::
  "rownr_t list \<Rightarrow> rownr_t list \<Rightarrow> nat \<Rightarrow> nat \<Rightarrow> RefTable \<Rightarrow> error + RefTable" where
  "refXor_loop inx1 inx2 i1 i2 t =
     (if nextRow inx1 i1 = nextRow inx2 i2 then
        (if nextRow inx1 i1 = rownr_max then Inr t
         else refXor_loop inx1 inx2 (i1 + 1) (i2 + 1) t)
      else if nextRow inx1 i1 < nextRow inx2 i2
      then (case storeRow t (nextRow inx1 i1) of
              Inl e \<Rightarrow> Inl e
            | Inr t' \<Rightarrow> refXor_loop inx1 inx2 (i1 + 1) i2 t')
      else (case storeRow t (nextRow inx2 i2) of
              Inl e \<Rightarrow> Inl e
            | Inr t' \<Rightarrow> refXor_loop inx1 inx2 i1 (i2 + 1) t'))"
  by pat_completeness auto
termination
  by (relation "measure (\<lambda>(inx1, inx2, i1, i2, t). (length inx1 - i1) + (length inx2 - i2))")
     (auto simp: nextRow_def rownr_max_def less_le word_order.extremum_unique split: if_splits)

declare refAnd_loop.simps [simp del] refOr_loop.simps [simp del]
  refSub_loop.simps [simp del] refXor_loop.simps [simp del]

definition setChanged :: "error + RefTable \<Rightarrow> error + RefTable" where
  "setChanged r = (case r of Inl e \<Rightarrow> Inl e | Inr t \<Rightarrow> Inr (t\<lparr>changed_p := True\<rparr>))"

definition refAnd :: "RefTable \<Rightarrow> rownr_t list \<Rightarrow> rownr_t list \<Rightarrow> error + RefTable" where
  "refAnd t inx1 inx2 =
     setChanged (refAnd_loop inx1 inx2 0 0
       (resizeStorage t (if length inx1 < length inx2 then length inx1 else length inx2)))"

definition refOr :: "RefTable \<Rightarrow> rownr_t list \<Rightarrow> rownr_t list \<Rightarrow> error + RefTable" where
  "refOr t inx1 inx2 =
     setChanged (refOr_loop inx1 inx2 0 0 (resizeStorage t (length inx1 + length inx2)))"

definition refSub :: "RefTable \<Rightarrow> rownr_t list \<Rightarrow> rownr_t list \<Rightarrow> error + RefTable" where
  "refSub t inx1 inx2 =
     setChanged (refSub_loop inx1 inx2 0 0 (resizeStorage t (length inx1)))"

definition refXor :: "RefTable \<Rightarrow> rownr_t list \<Rightarrow> rownr_t list \<Rightarrow> error + RefTable" where
  "refXor t inx1 inx2 =
     setChanged (refXor_loop inx1 inx2 0 0 (resizeStorage t (length inx1 + length inx2)))"

text \<open>
  \<open>refNot\<close>: the inner loop \<open>for (j=start; j<stop; j++) rows[nrrow_p++] = j\<close>, the outer
  loop over the index array, and the last interval up to \<open>nrtot\<close>.  The output vector gets
  \<open>nrtot - nr\<close> elements, a difference of \<open>rownr_t\<close> values.
\<close>

function refNot_fill :: "rownr_t \<Rightarrow> rownr_t \<Rightarrow> RefTable \<Rightarrow> error + RefTable" where
  "refNot_fill j stop t =
     (if j < stop then
        (case storeRow t j of
           Inl e \<Rightarrow> Inl e
         | Inr t' \<Rightarrow> refNot_fill (j + 1) stop t')
      else Inr t)"
  by pat_completeness auto
termination
proof (relation "measure (\<lambda>(j, stop, t). unat stop - unat j)")
  fix j stop :: rownr_t and t t' :: RefTable
  assume "j < stop"
  then have "unat stop - unat (j + 1) < unat stop - unat j"
    by unat_arith
  then show "((j + 1, stop, t'), (j, stop, t)) \<in> measure (\<lambda>(j, stop, t). unat stop - unat j)"
    by simp
qed simp

declare refNot_fill.simps [simp del]

fun refNot_loop :: "rownr_t list \<Rightarrow> rownr_t \<Rightarrow> RefTable \<Rightarrow> error + (rownr_t \<times> RefTable)" where
  "refNot_loop [] start t = Inr (start, t)"
| "refNot_loop (r # inx) start t =
     (case refNot_fill start r t of
        Inl e \<Rightarrow> Inl e
      | Inr t' \<Rightarrow> refNot_loop inx (r + 1) t')"

definition refNot :: "RefTable \<Rightarrow> rownr_t list \<Rightarrow> rownr_t \<Rightarrow> error + RefTable" where
  "refNot t inx nrtot =
     setChanged
       (case refNot_loop inx 0 (resizeStorage t (unat (nrtot - word_of_nat (length inx)))) of
          Inl e \<Rightarrow> Inl e
        | Inr (start, t') \<Rightarrow> refNot_fill start nrtot t')"

text \<open>
  The table the set operations are run on: \<open>RefTable (btp, order, nrall)\<close> with
  \<open>nrall = 0\<close> has no rows yet.
\<close>

definition storedRows :: "error + RefTable \<Rightarrow> rownr_t list option" where
  "storedRows r = (case r of Inl e \<Rightarrow> None | Inr t \<Rightarrow> Some (rows t))"

text \<open>
  The merge of two row lists as a list function, for stating what the loops compute:
  \<open>both\<close>, \<open>left\<close> and \<open>right\<close> say whether a row found in both lists, only in the first
  or only in the second is kept.
\<close>

fun mergeRows :: "bool \<Rightarrow> bool \<Rightarrow> bool \<Rightarrow> rownr_t list \<Rightarrow> rownr_t list \<Rightarrow> rownr_t list" where
  "mergeRows both left right [] [] = []"
| "mergeRows both left right (x # xs) [] =
     (if left then x # mergeRows both left right xs [] else mergeRows both left right xs [])"
| "mergeRows both left right [] (y # ys) =
     (if right then y # mergeRows both left right [] ys else mergeRows both left right [] ys)"
| "mergeRows both left right (x # xs) (y # ys) =
     (if x = y then
        (if both then x # mergeRows both left right xs ys else mergeRows both left right xs ys)
      else if x < y then
        (if left then x # mergeRows both left right xs (y # ys)
         else mergeRows both left right xs (y # ys))
      else
        (if right then y # mergeRows both left right (x # xs) ys
         else mergeRows both left right (x # xs) ys))"

text \<open>
  The four loops differ only in which of the three cases store a row.  For the proofs they
  are instances of one loop with the three choices as parameters.
\<close>

function refMerge_loop ::
  "bool \<Rightarrow> bool \<Rightarrow> bool \<Rightarrow> rownr_t list \<Rightarrow> rownr_t list \<Rightarrow> nat \<Rightarrow> nat \<Rightarrow> RefTable
     \<Rightarrow> error + RefTable" where
  "refMerge_loop both left right inx1 inx2 i1 i2 t =
     (if nextRow inx1 i1 = nextRow inx2 i2 then
        (if nextRow inx1 i1 = rownr_max then Inr t
         else if both then
           (case storeRow t (nextRow inx1 i1) of
              Inl e \<Rightarrow> Inl e
            | Inr t' \<Rightarrow> refMerge_loop both left right inx1 inx2 (i1 + 1) (i2 + 1) t')
         else refMerge_loop both left right inx1 inx2 (i1 + 1) (i2 + 1) t)
      else if nextRow inx1 i1 < nextRow inx2 i2 then
        (if left then
           (case storeRow t (nextRow inx1 i1) of
              Inl e \<Rightarrow> Inl e
            | Inr t' \<Rightarrow> refMerge_loop both left right inx1 inx2 (i1 + 1) i2 t')
         else refMerge_loop both left right inx1 inx2 (i1 + 1) i2 t)
      else
        (if right then
           (case storeRow t (nextRow inx2 i2) of
              Inl e \<Rightarrow> Inl e
            | Inr t' \<Rightarrow> refMerge_loop both left right inx1 inx2 i1 (i2 + 1) t')
         else refMerge_loop both left right inx1 inx2 i1 (i2 + 1) t))"
  by pat_completeness auto
termination
  by (relation "measure (\<lambda>(both, left, right, inx1, inx2, i1, i2, t).
                  (length inx1 - i1) + (length inx2 - i2))")
     (auto simp: nextRow_def rownr_max_def less_le word_order.extremum_unique split: if_splits)

declare refMerge_loop.simps [simp del]

text \<open>The rows from \<open>a\<close> up to, not including, \<open>b\<close>.\<close>

definition rowRange :: "rownr_t \<Rightarrow> rownr_t \<Rightarrow> rownr_t list" where
  "rowRange a b = map word_of_nat [unat a..<unat b]"

text \<open>What \<open>refNot\<close> stores, as a list function.\<close>

fun notRows :: "rownr_t \<Rightarrow> rownr_t list \<Rightarrow> rownr_t \<Rightarrow> rownr_t list" where
  "notRows start [] nrtot = rowRange start nrtot"
| "notRows start (r # inx) nrtot = rowRange start r @ notRows (r + 1) inx nrtot"

text \<open>
  \<open>RefTable::RefTable (BaseTable* btp, Bool order, rownr_t nrall)\<close>: the table the set
  operations fill.  It is made with \<open>nrall = 0\<close>, so it has no rows yet.
\<close>

definition RefTable_sized :: "(string \<times> string) list \<Rightarrow> BaseTable \<Rightarrow> bool \<Rightarrow> nat \<Rightarrow> RefTable" where
  "RefTable_sized nm btp order nrall =
     \<lparr>baseTabPtr_p = root btp, nrrow_p = nrall, rowOrd_p = order,
      rowStorage_p = replicate nrall 0, nameMap_p = nm, changed_p = True\<rparr>"

section \<open>ISMBucket: a bucket of the incremental storage manager\<close>


definition uIntSize :: uInt where
  "uIntSize = 4"


text \<open>
  The members of \<open>ISMBucket\<close>.  A \<open>Block\<close> is the list of its elements (its length is
  \<open>nelements()\<close>); of the blocks of column \<open>i\<close> the first \<open>indexUsed_p[i]\<close> elements are
  in use.  \<open>data_p\<close> is the data buffer, of which the first \<open>dataLeng_p\<close> bytes are in
  use.
\<close>

record ISMBucket =
  dataLeng_p :: uInt
  indexLeng_p :: uInt
  rowIndex_p :: "rownr_t list list"
  offIndex_p :: "uInt list list"
  indexUsed_p :: "uInt list"
  data_p :: "uChar list"

text \<open>
  An indexed read \<open>block[i]\<close>.  The code makes no bounds check: a read outside the
  block is the unchecked access \<open>IndexFault\<close>, not an error of the program.
\<close>

definition at :: "'a list \<Rightarrow> nat \<Rightarrow> error + 'a" where
  "at xs i = (if i < length xs then Inr (xs ! i) else Inl IndexFault)"

subsection \<open>getOffset and getInterval\<close>

text \<open>
  Modelled from the spec: \<open>binarySearchBrackets\<close> (casa/Utilities/BinarySearch) is
  outside these sources.  The spec has a get do ``a binary search in the column's row
  index for the greatest entry \<open>\<le>\<close> target row''; the callers step one index back when
  the search reports no exact match.  So the search of the first \<open>n\<close> elements of an
  ascending container returns the index of the element equal to the value with
  \<open>found\<close> set, or else, with \<open>found\<close> cleared, the index of the first element
  greater than the value (\<open>n\<close> when there is none).  It is a bisection.
\<close>

function binarySearch_loop :: "rownr_t list \<Rightarrow> rownr_t \<Rightarrow> nat \<Rightarrow> nat \<Rightarrow> bool \<times> nat" where
  "binarySearch_loop container val lower upper =
     (if lower < upper then
        (let middle = (lower + upper) div 2 in
         if container ! middle < val then binarySearch_loop container val (middle + 1) upper
         else if val < container ! middle then binarySearch_loop container val lower middle
         else (True, middle))
      else (False, lower))"
  by pat_completeness auto
termination
  by (relation "measure (\<lambda>(container, val, lower, upper). upper - lower)") auto

declare binarySearch_loop.simps [simp del]

definition binarySearchBrackets :: "rownr_t list \<Rightarrow> rownr_t \<Rightarrow> nat \<Rightarrow> error + (bool \<times> nat)" where
  "binarySearchBrackets container val n =
     (if n \<le> length container then Inr (binarySearch_loop container val 0 n)
      else Inl IndexFault)"

text \<open>
  \<open>getOffset\<close> returns a reference to the offset; the model returns its value.  The
  index \<open>inx\<close> is a \<open>uInt\<close>: stepping back from 0 wraps.
\<close>

definition getOffset :: "ISMBucket \<Rightarrow> nat \<Rightarrow> rownr_t \<Rightarrow> error + uInt" where
  "getOffset this colnr rownr =
     (if colnr < length (rowIndex_p this) \<and> colnr < length (offIndex_p this)
         \<and> colnr < length (indexUsed_p this) then
        (case binarySearchBrackets (rowIndex_p this ! colnr) rownr
                (unat (indexUsed_p this ! colnr)) of
           Inl e \<Rightarrow> Inl e
         | Inr (found, i) \<Rightarrow>
             (let inx = (word_of_nat i :: uInt);
                  inx = (if \<not> found then inx - 1 else inx)
              in at (offIndex_p this ! colnr) (unat inx)))
      else Inl IndexFault)"

text \<open>\<open>getInterval\<close> returns the index found and sets \<open>start\<close>, \<open>end\<close> and \<open>offset\<close>.\<close>

record Interval =
  iv_index :: uInt
  iv_start :: rownr_t
  iv_end :: rownr_t
  iv_offset :: uInt

definition getInterval :: "ISMBucket \<Rightarrow> nat \<Rightarrow> rownr_t \<Rightarrow> rownr_t \<Rightarrow> error + Interval" where
  "getInterval this colnr rownr bucketNrrow =
     (if colnr < length (rowIndex_p this) \<and> colnr < length (offIndex_p this)
         \<and> colnr < length (indexUsed_p this) then
        (let rowIndex = rowIndex_p this ! colnr in
         case binarySearchBrackets rowIndex rownr (unat (indexUsed_p this ! colnr)) of
           Inl e \<Rightarrow> Inl e
         | Inr (found, i) \<Rightarrow>
             (let inx = (word_of_nat i :: uInt);
                  index = inx;
                  inx = (if \<not> found then inx - 1 else inx)
              in case at (offIndex_p this ! colnr) (unat inx) of
                   Inl e \<Rightarrow> Inl e
                 | Inr offset \<Rightarrow>
                     (case at rowIndex (unat inx) of
                        Inl e \<Rightarrow> Inl e
                      | Inr start \<Rightarrow>
                          (let inx = inx + 1 in
                           if inx = indexUsed_p this ! colnr
                           then Inr \<lparr>iv_index = index, iv_start = start,
                                     iv_end = bucketNrrow - 1, iv_offset = offset\<rparr>
                           else case at rowIndex (unat inx) of
                                  Inl e \<Rightarrow> Inl e
                                | Inr end \<Rightarrow>
                                    Inr \<lparr>iv_index = index, iv_start = start,
                                         iv_end = end - 1, iv_offset = offset\<rparr>))))
      else Inl IndexFault)"

text \<open>
  The index of column \<open>colnr\<close> is well formed: the blocks hold the used entries, fewer
  than \<open>2^32 - 1\<close> of them, and the used row numbers are strictly increasing.
\<close>

definition validIndex :: "ISMBucket \<Rightarrow> nat \<Rightarrow> bool" where
  "validIndex b colnr =
     (colnr < length (rowIndex_p b) \<and> colnr < length (offIndex_p b)
      \<and> colnr < length (indexUsed_p b)
      \<and> unat (indexUsed_p b ! colnr) \<le> length (rowIndex_p b ! colnr)
      \<and> unat (indexUsed_p b ! colnr) \<le> length (offIndex_p b ! colnr)
      \<and> length (rowIndex_p b ! colnr) < 2 ^ 32 - 1
      \<and> length (offIndex_p b ! colnr) < 2 ^ 32 - 1
      \<and> sorted_wrt (<) (take (unat (indexUsed_p b ! colnr)) (rowIndex_p b ! colnr)))"

subsection \<open>The constructor of an empty bucket\<close>


subsection \<open>Canonical values in a bucket\<close>

text \<open>
  Modelled from the spec: the conversion functions \<open>ISMColumn::getWriteuInt\<close>,
  \<open>getWriteRownr\<close>, \<open>getReaduInt\<close> and \<open>getReadRownr\<close> are outside these sources.
  The spec has ``Endianness is a per-file setting applied uniformly'': a \<open>uInt\<close> is 4
  bytes and a row number 8 bytes, most significant byte first when the file is big endian
  and least significant byte first otherwise.
\<close>

definition be_uInt :: "uInt \<Rightarrow> uChar list" where
  "be_uInt w = [ucast (drop_bit 24 w), ucast (drop_bit 16 w), ucast (drop_bit 8 w), ucast w]"

fun of_be_uInt :: "uChar list \<Rightarrow> uInt" where
  "of_be_uInt [a, b, c, d] =
     push_bit 24 (ucast a) OR push_bit 16 (ucast b) OR push_bit 8 (ucast c) OR ucast d"
| "of_be_uInt _ = 0"

definition be_rownr :: "rownr_t \<Rightarrow> uChar list" where
  "be_rownr w = [ucast (drop_bit 56 w), ucast (drop_bit 48 w), ucast (drop_bit 40 w),
                 ucast (drop_bit 32 w), ucast (drop_bit 24 w), ucast (drop_bit 16 w),
                 ucast (drop_bit 8 w), ucast w]"

fun of_be_rownr :: "uChar list \<Rightarrow> rownr_t" where
  "of_be_rownr [a, b, c, d, e, f, g, h] =
     push_bit 56 (ucast a) OR push_bit 48 (ucast b) OR push_bit 40 (ucast c)
     OR push_bit 32 (ucast d) OR push_bit 24 (ucast e) OR push_bit 16 (ucast f)
     OR push_bit 8 (ucast g) OR ucast h"
| "of_be_rownr _ = 0"

definition writeuInt :: "bool \<Rightarrow> uInt \<Rightarrow> uChar list" where
  "writeuInt bigEndian w = (if bigEndian then be_uInt w else rev (be_uInt w))"

definition readuInt :: "bool \<Rightarrow> uChar list \<Rightarrow> uInt" where
  "readuInt bigEndian bytes = of_be_uInt (if bigEndian then bytes else rev bytes)"

definition writeRownr :: "bool \<Rightarrow> rownr_t \<Rightarrow> uChar list" where
  "writeRownr bigEndian w = (if bigEndian then be_rownr w else rev (be_rownr w))"

definition readRownr :: "bool \<Rightarrow> uChar list \<Rightarrow> rownr_t" where
  "readRownr bigEndian bytes = of_be_rownr (if bigEndian then bytes else rev bytes)"


subsection \<open>Writing into and reading from the bucket storage\<close>

text \<open>
  A write of bytes at a position of a buffer and a read of \<open>n\<close> bytes from it; outside
  the buffer, a fault.
\<close>

definition poke :: "uChar list \<Rightarrow> nat \<Rightarrow> uChar list \<Rightarrow> error + uChar list" where
  "poke storage pos bytes =
     (if pos + length bytes \<le> length storage
      then Inr (take pos storage @ bytes @ drop (pos + length bytes) storage)
      else Inl IndexFault)"

definition peek :: "uChar list \<Rightarrow> nat \<Rightarrow> nat \<Rightarrow> error + uChar list" where
  "peek storage pos n =
     (if pos + n \<le> length storage then Inr (take n (drop pos storage)) else Inl IndexFault)"


definition bindE :: "error + 'a \<Rightarrow> ('a \<Rightarrow> error + 'b) \<Rightarrow> error + 'b" where
  "bindE r f = (case r of Inl e \<Rightarrow> Inl e | Inr x \<Rightarrow> f x)"










text \<open>
  The image of a column index in the storage: the number of entries, the row numbers in
  use (4 bytes each when \<open>use32\<close>, 8 bytes otherwise) and the offsets in use; the image
  of the index is that of its columns one after the other.
\<close>

definition columnImage :: "bool \<Rightarrow> bool \<Rightarrow> ISMBucket \<Rightarrow> nat \<Rightarrow> uChar list" where
  "columnImage bigEndian use32 b i =
     writeuInt bigEndian (indexUsed_p b ! i)
     @ (if use32
        then concat (map (\<lambda>row. writeuInt bigEndian (ucast row))
                       (take (unat (indexUsed_p b ! i)) (rowIndex_p b ! i)))
        else concat (map (writeRownr bigEndian)
                       (take (unat (indexUsed_p b ! i)) (rowIndex_p b ! i))))
     @ concat (map (writeuInt bigEndian) (take (unat (indexUsed_p b ! i)) (offIndex_p b ! i)))"

definition indexImage :: "bool \<Rightarrow> bool \<Rightarrow> ISMBucket \<Rightarrow> nat list \<Rightarrow> uChar list" where
  "indexImage bigEndian use32 b cols = concat (map (columnImage bigEndian use32 b) cols)"


section \<open>TaQL syntax-tree nodes: save and restore\<close>

text \<open>
  The values an \<open>AipsIO\<close> stream holds, in the order they were put.  A \<open>Double\<close> is
  its 64 bits: the stream copies it.  The tags written as a \<open>char\<close> are the kind of a
  node and the type of a constant.
\<close>

type_synonym Double = "64 word"

datatype NodeType =
    TaQLNode_Null | TaQLNode_Const | TaQLNode_Multi | TaQLNode_Table | TaQLNode_Select
  | TaQLNode_Count | TaQLNode_CreTab | TaQLNode_AltTab | TaQLNode_AddRow | TaQLNode_ConcTab

datatype ConstType = CTBool | CTInt | CTReal | CTComplex | CTString | CTTime

datatype item =
    INodeType NodeType
  | IConstType ConstType
  | IBool bool
  | IString string
  | IInt64 int
  | IuInt uInt
  | IDouble Double
  | IDComplex Double Double

text \<open>
  \<open>TaQLQueryNodeRep\<close>, the base class of the statements that can be used as a nested
  query: its three flags, all false after construction.
\<close>

record TaQLQueryNodeRep =
  itsBrackets :: bool
  itsNoExecute :: bool
  itsFromExecute :: bool

definition TaQLQueryNodeRep_new :: TaQLQueryNodeRep where
  "TaQLQueryNodeRep_new = \<lparr>itsBrackets = False, itsNoExecute = False, itsFromExecute = False\<rparr>"

text \<open>
  A \<open>TaQLNode\<close> is a handle of a node representation or the null handle.  The kinds
  modelled are the five statements derived from \<open>TaQLQueryNodeRep\<close> (select, count,
  create table, alter table, table concatenation) and the kinds their examples are built
  from: constants (one constructor of the datatype for each constructor of
  \<open>TaQLConstNodeRep\<close> that sets other members), the list of nodes, the table with its
  alias and the add-row command.  A member of type \<open>TaQLMultiNode\<close> holds a list of
  nodes or the null handle.
\<close>

datatype TaQLNode =
    Null
  | ConstBool bool
  | ConstInt int
  | ConstReal Double string
  | ConstComplex Double Double
  | ConstString string bool
  | ConstTime Double
  | ConstSubTable int string
  | Multi bool string string string string uInt "TaQLNode list"
  | Table TaQLNode string
  | AddRow TaQLNode
  | Select TaQLNode TaQLNode TaQLNode TaQLNode TaQLNode TaQLNode TaQLNode TaQLNode TaQLNode
      TaQLNode TaQLNode TaQLQueryNodeRep
  | Count TaQLNode TaQLNode TaQLNode TaQLNode TaQLQueryNodeRep
  | CreTab TaQLNode TaQLNode TaQLNode TaQLNode TaQLNode TaQLNode TaQLQueryNodeRep
  | AltTab TaQLNode TaQLNode TaQLNode TaQLNode TaQLQueryNodeRep
  | ConcTab string TaQLNode TaQLNode TaQLQueryNodeRep

text \<open>\<open>TaQLQueryNodeRep::saveSuper\<close>.\<close>

definition saveSuper :: "TaQLQueryNodeRep \<Rightarrow> item list" where
  "saveSuper q = [IBool (itsBrackets q), IBool (itsNoExecute q), IBool (itsFromExecute q)]"

text \<open>
  Modelled from the spec: \<open>TaQLNode::saveNode\<close>, \<open>restoreNode\<close> and
  \<open>restoreMultiNode\<close> (TaQLNode.cc) are outside these sources.  The spec has a node
  ``serializable to a portable binary form'' with ``one variant per grammar
  production'': \<open>saveNode\<close> writes the kind of the node and has the representation
  save its members; the null handle is written as the kind \<open>TaQLNode_Null\<close>.

  The \<open>save\<close> functions of the representations are the cases of \<open>saveNode\<close> after the
  kind: \<open>TaQLConstNodeRep::save\<close> writes the type, the table-name flag, the unit and
  the value (with the subtable name for an integer that names a table);
  \<open>TaQLMultiNodeRep::save\<close> the members, the number of nodes and the nodes;
  \<open>TaQLSelectNodeRep::save\<close>, \<open>TaQLCountNodeRep::save\<close> and
  \<open>TaQLCreTabNodeRep::save\<close> the children and then \<open>saveSuper\<close>;
  \<open>TaQLAltTabNodeRep::save\<close> and \<open>TaQLConcTabNodeRep::save\<close> the members only.
\<close>

fun saveNode :: "TaQLNode \<Rightarrow> item list" where
  "saveNode Null = [INodeType TaQLNode_Null]"
| "saveNode (ConstBool v) =
     [INodeType TaQLNode_Const, IConstType CTBool, IBool False, IString '''', IBool v]"
| "saveNode (ConstInt v) =
     [INodeType TaQLNode_Const, IConstType CTInt, IBool False, IString '''', IInt64 v]"
| "saveNode (ConstReal v unit) =
     [INodeType TaQLNode_Const, IConstType CTReal, IBool False, IString unit, IDouble v]"
| "saveNode (ConstComplex re im) =
     [INodeType TaQLNode_Const, IConstType CTComplex, IBool False, IString '''',
      IDComplex re im]"
| "saveNode (ConstString v isTableName) =
     [INodeType TaQLNode_Const, IConstType CTString, IBool isTableName, IString '''',
      IString v]"
| "saveNode (ConstTime v) =
     [INodeType TaQLNode_Const, IConstType CTTime, IBool False, IString '''', IDouble v]"
| "saveNode (ConstSubTable v subTableName) =
     [INodeType TaQLNode_Const, IConstType CTInt, IBool True, IString '''', IInt64 v,
      IString subTableName]"
| "saveNode (Multi isSetOrArray prefix postfix sep sep2 incr nodes) =
     [INodeType TaQLNode_Multi, IBool isSetOrArray, IString prefix, IString postfix,
      IString sep, IString sep2, IuInt incr, IuInt (word_of_nat (length nodes))]
     @ concat (map saveNode nodes)"
| "saveNode (Table table alias) =
     [INodeType TaQLNode_Table, IString alias] @ saveNode table"
| "saveNode (AddRow nrowNode) = INodeType TaQLNode_AddRow # saveNode nrowNode"
| "saveNode (Select columnsNode with tablesNode joins where groupby having sorting limitoff giving
       dminfo super) =
     INodeType TaQLNode_Select # saveNode columnsNode @ saveNode with @ saveNode tablesNode
     @ saveNode joins @ saveNode where @ saveNode groupby @ saveNode having @ saveNode sorting
     @ saveNode limitoff @ saveNode giving @ saveNode dminfo @ saveSuper super"
| "saveNode (Count with columnsNode tablesNode where super) =
     INodeType TaQLNode_Count # saveNode with @ saveNode columnsNode @ saveNode tablesNode
     @ saveNode where @ saveSuper super"
| "saveNode (CreTab with giving likeDrop cols limit dminfo super) =
     INodeType TaQLNode_CreTab # saveNode with @ saveNode giving @ saveNode likeDrop
     @ saveNode cols @ saveNode limit @ saveNode dminfo @ saveSuper super"
| "saveNode (AltTab with table from commands super) =
     INodeType TaQLNode_AltTab # saveNode with @ saveNode table @ saveNode from
     @ saveNode commands"
| "saveNode (ConcTab concName tablesNode subtableNames super) =
     INodeType TaQLNode_ConcTab # IString concName # saveNode tablesNode
     @ saveNode subtableNames"

text \<open>
  Reading from the stream.  A get of a value where the stream holds another type, or
  nothing, is an error of \<open>AipsIO\<close>.  A restore that needs more steps than the
  fuel it is given returns \<open>None\<close>.
\<close>

type_synonym 'a restored = "(error + ('a \<times> item list)) option"

definition bindR :: "'a restored \<Rightarrow> ('a \<Rightarrow> item list \<Rightarrow> 'b restored) \<Rightarrow> 'b restored" where
  "bindR r f = (case r of None \<Rightarrow> None | Some (Inl e) \<Rightarrow> Some (Inl e)
                | Some (Inr (x, aio)) \<Rightarrow> f x aio)"

fun getNodeType :: "item list \<Rightarrow> NodeType restored" where
  "getNodeType (INodeType t # aio) = Some (Inr (t, aio))"
| "getNodeType _ = Some (Inl AipsError)"

fun getConstType :: "item list \<Rightarrow> ConstType restored" where
  "getConstType (IConstType t # aio) = Some (Inr (t, aio))"
| "getConstType _ = Some (Inl AipsError)"

fun getBool :: "item list \<Rightarrow> bool restored" where
  "getBool (IBool b # aio) = Some (Inr (b, aio))"
| "getBool _ = Some (Inl AipsError)"

fun getString :: "item list \<Rightarrow> string restored" where
  "getString (IString s # aio) = Some (Inr (s, aio))"
| "getString _ = Some (Inl AipsError)"

fun getInt64 :: "item list \<Rightarrow> int restored" where
  "getInt64 (IInt64 i # aio) = Some (Inr (i, aio))"
| "getInt64 _ = Some (Inl AipsError)"

fun getuInt :: "item list \<Rightarrow> uInt restored" where
  "getuInt (IuInt n # aio) = Some (Inr (n, aio))"
| "getuInt _ = Some (Inl AipsError)"

fun getDouble :: "item list \<Rightarrow> Double restored" where
  "getDouble (IDouble d # aio) = Some (Inr (d, aio))"
| "getDouble _ = Some (Inl AipsError)"

fun getDComplex :: "item list \<Rightarrow> (Double \<times> Double) restored" where
  "getDComplex (IDComplex re im # aio) = Some (Inr ((re, im), aio))"
| "getDComplex _ = Some (Inl AipsError)"

text \<open>\<open>TaQLQueryNodeRep::restoreSuper\<close>.\<close>

definition restoreSuper :: "item list \<Rightarrow> TaQLQueryNodeRep restored" where
  "restoreSuper aio =
     bindR (getBool aio) (\<lambda>brackets aio.
     bindR (getBool aio) (\<lambda>noExecute aio.
     bindR (getBool aio) (\<lambda>fromExecute aio.
       Some (Inr (\<lparr>itsBrackets = brackets, itsNoExecute = noExecute,
                   itsFromExecute = fromExecute\<rparr>, aio)))))"

text \<open>
  \<open>TaQLConstNodeRep::restore\<close>: the unit is given to the constructor for a real value
  only; the table-name flag for a string, and as the choice of the constructor for an
  integer.
\<close>

definition restoreConst :: "item list \<Rightarrow> TaQLNode restored" where
  "restoreConst aio =
     bindR (getConstType aio) (\<lambda>type aio.
     bindR (getBool aio) (\<lambda>isTableName aio.
     bindR (getString aio) (\<lambda>unit aio.
       case type of
         CTBool \<Rightarrow> bindR (getBool aio) (\<lambda>value aio. Some (Inr (ConstBool value, aio)))
       | CTInt \<Rightarrow>
           bindR (getInt64 aio) (\<lambda>value aio.
             if isTableName
             then bindR (getString aio) (\<lambda>name aio. Some (Inr (ConstSubTable value name, aio)))
             else Some (Inr (ConstInt value, aio)))
       | CTReal \<Rightarrow> bindR (getDouble aio) (\<lambda>value aio. Some (Inr (ConstReal value unit, aio)))
       | CTComplex \<Rightarrow>
           bindR (getDComplex aio) (\<lambda>(re, im) aio. Some (Inr (ConstComplex re im, aio)))
       | CTString \<Rightarrow>
           bindR (getString aio) (\<lambda>value aio. Some (Inr (ConstString value isTableName, aio)))
       | CTTime \<Rightarrow> bindR (getDouble aio) (\<lambda>v aio. Some (Inr (ConstTime v, aio))))))"

text \<open>
  Modelled from the spec: \<open>restoreNode\<close> reads the kind and has the representation of
  that kind restore the node; \<open>restoreMultiNode\<close> does so for a list of nodes or the
  null handle and fails on another kind.  The cases after the kind are the \<open>restore\<close>
  functions of the representations: those of select, count and create table construct
  the node from its children and then call \<open>restoreSuper\<close>; those of alter table and
  table concatenation construct the node only, so its flags are those of the
  constructor.  \<open>restoreNodes\<close> is the loop of \<open>TaQLMultiNodeRep::restore\<close> that adds
  the restored nodes.
\<close>

fun restoreNode :: "nat \<Rightarrow> item list \<Rightarrow> TaQLNode restored"
  and restoreMultiNode :: "nat \<Rightarrow> item list \<Rightarrow> TaQLNode restored"
  and restoreRep :: "nat \<Rightarrow> NodeType \<Rightarrow> item list \<Rightarrow> TaQLNode restored"
  and restoreNodes :: "nat \<Rightarrow> nat \<Rightarrow> item list \<Rightarrow> (TaQLNode list) restored" where
  "restoreNode 0 aio = None"
| "restoreNode (Suc fuel) aio =
     bindR (getNodeType aio) (\<lambda>nodeType aio. restoreRep fuel nodeType aio)"
| "restoreMultiNode 0 aio = None"
| "restoreMultiNode (Suc fuel) aio =
     bindR (getNodeType aio) (\<lambda>nodeType aio.
       if nodeType = TaQLNode_Null \<or> nodeType = TaQLNode_Multi
       then restoreRep fuel nodeType aio else Some (Inl AipsError))"
| "restoreRep 0 nodeType aio = None"
| "restoreRep (Suc fuel) TaQLNode_Null aio = Some (Inr (Null, aio))"
| "restoreRep (Suc fuel) TaQLNode_Const aio = restoreConst aio"
| "restoreRep (Suc fuel) TaQLNode_Multi aio =
     bindR (getBool aio) (\<lambda>isSetOrArray aio.
     bindR (getString aio) (\<lambda>prefix aio.
     bindR (getString aio) (\<lambda>postfix aio.
     bindR (getString aio) (\<lambda>sep aio.
     bindR (getString aio) (\<lambda>sep2 aio.
     bindR (getuInt aio) (\<lambda>incr aio.
     bindR (getuInt aio) (\<lambda>nsize aio.
     bindR (restoreNodes fuel (unat nsize) aio) (\<lambda>nodes aio.
       Some (Inr (Multi isSetOrArray prefix postfix sep sep2 incr nodes, aio))))))))))"
| "restoreRep (Suc fuel) TaQLNode_Table aio =
     bindR (getString aio) (\<lambda>alias aio.
     bindR (restoreNode fuel aio) (\<lambda>table aio. Some (Inr (Table table alias, aio))))"
| "restoreRep (Suc fuel) TaQLNode_AddRow aio =
     bindR (restoreNode fuel aio) (\<lambda>nrowNode aio. Some (Inr (AddRow nrowNode, aio)))"
| "restoreRep (Suc fuel) TaQLNode_Select aio =
     bindR (restoreNode fuel aio) (\<lambda>columnsNode aio.
     bindR (restoreMultiNode fuel aio) (\<lambda>with aio.
     bindR (restoreMultiNode fuel aio) (\<lambda>tablesNode aio.
     bindR (restoreMultiNode fuel aio) (\<lambda>joins aio.
     bindR (restoreNode fuel aio) (\<lambda>where aio.
     bindR (restoreNode fuel aio) (\<lambda>groupby aio.
     bindR (restoreNode fuel aio) (\<lambda>having aio.
     bindR (restoreNode fuel aio) (\<lambda>sorting aio.
     bindR (restoreNode fuel aio) (\<lambda>limitoff aio.
     bindR (restoreNode fuel aio) (\<lambda>giving aio.
     bindR (restoreMultiNode fuel aio) (\<lambda>dminfo aio.
     bindR (restoreSuper aio) (\<lambda>super aio.
       Some (Inr (Select columnsNode with tablesNode joins where groupby having sorting limitoff giving
                    dminfo super, aio))))))))))))))"
| "restoreRep (Suc fuel) TaQLNode_Count aio =
     bindR (restoreMultiNode fuel aio) (\<lambda>with aio.
     bindR (restoreNode fuel aio) (\<lambda>columnsNode aio.
     bindR (restoreMultiNode fuel aio) (\<lambda>tablesNode aio.
     bindR (restoreNode fuel aio) (\<lambda>where aio.
     bindR (restoreSuper aio) (\<lambda>super aio.
       Some (Inr (Count with columnsNode tablesNode where super, aio)))))))"
| "restoreRep (Suc fuel) TaQLNode_CreTab aio =
     bindR (restoreMultiNode fuel aio) (\<lambda>with aio.
     bindR (restoreNode fuel aio) (\<lambda>giving aio.
     bindR (restoreMultiNode fuel aio) (\<lambda>likeDrop aio.
     bindR (restoreMultiNode fuel aio) (\<lambda>columnsNode aio.
     bindR (restoreNode fuel aio) (\<lambda>limit aio.
     bindR (restoreMultiNode fuel aio) (\<lambda>dminfo aio.
     bindR (restoreSuper aio) (\<lambda>super aio.
       Some (Inr (CreTab with giving likeDrop columnsNode limit dminfo super, aio)))))))))"
| "restoreRep (Suc fuel) TaQLNode_AltTab aio =
     bindR (restoreMultiNode fuel aio) (\<lambda>with aio.
     bindR (restoreNode fuel aio) (\<lambda>table aio.
     bindR (restoreMultiNode fuel aio) (\<lambda>from aio.
     bindR (restoreMultiNode fuel aio) (\<lambda>commands aio.
       Some (Inr (AltTab with table from commands TaQLQueryNodeRep_new, aio))))))"
| "restoreRep (Suc fuel) TaQLNode_ConcTab aio =
     bindR (getString aio) (\<lambda>concName aio.
     bindR (restoreMultiNode fuel aio) (\<lambda>tablesNode aio.
     bindR (restoreMultiNode fuel aio) (\<lambda>subtables aio.
       Some (Inr (ConcTab concName tablesNode subtables TaQLQueryNodeRep_new, aio)))))"
| "restoreNodes 0 nsize aio = None"
| "restoreNodes (Suc fuel) 0 aio = Some (Inr ([], aio))"
| "restoreNodes (Suc fuel) (Suc nsize) aio =
     bindR (restoreNode fuel aio) (\<lambda>node aio.
     bindR (restoreNodes fuel nsize aio) (\<lambda>nodes aio. Some (Inr (node # nodes, aio))))"

section \<open>Theorems\<close>

text \<open>
  C3.  \<open>getSplit\<close> is said to return, of the index where the walk stops and the one
  before it, the index with the smaller difference between left and right size.  For one
  column with items of 10, 10 and 100 bytes the walk stops at the last index 2 with the
  left side still smaller; the unsigned difference \<open>20 + 120 - 100 - 120\<close> wraps to a huge
  value, so the code steps back to index 1 (difference 100) although index 2 gives the
  smaller difference (80).
\<close>

theorem getSplit_wraps_at_last_index:
  "getSplit 120 [10, 10, 100] [10, 20, 120] = Inr 1
   \<and> sizeDiff 120 [10, 10, 100] [10, 20, 120] 2 = 80
   \<and> sizeDiff 120 [10, 10, 100] [10, 20, 120] 1 = 100"
  by (simp add: getSplit_def getSplit_loop.simps sizeDiff_def leftSize_def rightSize_def)

text \<open>
  C8.  Every operation that dispatches on the data type is said to report an unknown type
  as \<open>DataManInternalError\<close>.  \<open>copyData\<close>, \<open>getArrayV\<close>, \<open>putArrayV\<close>,
  \<open>getSliceV\<close> and \<open>putSliceV\<close> do; \<open>setShape\<close> has no \<open>default\<close> branch: for
  \<open>TpOther\<close> it records the shape, writes nothing to the file and returns \<open>True\<close>.
\<close>

theorem setShape_unhandled_type_not_reported:
  "setShape putShape ios \<lparr>fileOffset_p = 0, arrOffset_p = 0, shape_p = []\<rparr> TpOther [2, 3]
     = (True, \<lparr>fileOffset_p = 0, arrOffset_p = 0, shape_p = [2, 3]\<rparr>, ios)
   \<and> getArrayV \<lparr>fileOffset_p = 0, arrOffset_p = 0, shape_p = [2, 3]\<rparr> [2, 3] TpOther
     = Inl (DataManInternalError ''Unhandled data type in StIndArray::getArrayV'')
   \<and> putArrayV \<lparr>fileOffset_p = 0, arrOffset_p = 0, shape_p = [2, 3]\<rparr> [2, 3] TpOther
     = Inl (DataManInternalError ''Unhandled data type in StIndArray::putArrayV'')
   \<and> copyData \<lparr>fileOffset_p = 0, arrOffset_p = 0, shape_p = [2, 3]\<rparr> TpOther
        \<lparr>fileOffset_p = 64, arrOffset_p = 0, shape_p = [2, 3]\<rparr>
     = Inl (DataManInternalError ''Unhandled data type in StIndArray::copyData'')
   \<and> getSliceV getSliceData TpOther
     = Inl (DataManInternalError ''Unhandled data type in StIndArray::getSliceV'')
   \<and> putSliceV putSliceData TpOther
     = Inl (DataManInternalError ''Unhandled data type in StIndArray::putSliceV'')"
  by (simp add: setShape_def getArrayV_def putArrayV_def copyData_def getSliceV_def
      putSliceV_def checkShape_def handledType_def)

subsection \<open>setShape on the data types it names\<close>

text \<open>
  For every data type \<open>setShape\<close> returns false, leaving the cell and the file as they
  are, exactly when a shape is defined for the cell (array offset non-zero) and the
  requested shape equals the stored one.
\<close>

lemma setShape_false_iff:
  "fst (setShape putShape ios this T shape) = False
     \<longleftrightarrow> (arrOffset_p this \<noteq> 0 \<and> shape_p this = shape)"
  by (cases T) (auto simp: setShape_def setShape_put_def Let_def split: prod.splits)

lemma setShape_same_shape:
  "arrOffset_p this \<noteq> 0 \<and> shape_p this = shape
     \<Longrightarrow> setShape putShape ios this T shape = (False, this, ios)"
  by (simp add: setShape_def)

text \<open>
  For each of the twelve data types the switch names, \<open>setShape\<close> otherwise records
  the shape, has \<open>putShape\<close> write the shape descriptor, and returns true.
\<close>

lemma setShape_handled_type_writes:
  "handledType T \<Longrightarrow> \<not> (arrOffset_p this \<noteq> 0 \<and> shape_p this = shape) \<Longrightarrow>
     setShape putShape ios this T shape =
       (True,
        \<lparr>fileOffset_p = fst (snd (putShape ios shape (fileOffset_p this) T)),
         arrOffset_p = fst (putShape ios shape (fileOffset_p this) T),
         shape_p = shape\<rparr>,
        snd (snd (putShape ios shape (fileOffset_p this) T)))"
  by (auto simp: handledType_def setShape_def setShape_put_def Let_def split: prod.splits)

text \<open>
  C7.  \<open>setShape\<close> is said to return false without file IO exactly when the cell has
  a shape and the requested shape is the stored one, and otherwise to record the shape,
  write a shape descriptor and return true.  It does so for the twelve data types its
  switch names (for \<open>TpInt\<close> the descriptor of shape \<open>[2, 3]\<close> takes the file from
  length 0 to 22 and the array offset to 16).  The switch has no \<open>default\<close> branch: for
  \<open>TpOther\<close>, on the same cell without a shape, \<open>setShape\<close> records the shape and
  returns true, yet writes no descriptor: the file keeps its length 0 and the array offset
  stays 0, so the cell still counts as having no shape and setting the same shape again
  returns true again.
\<close>

theorem setShape_unhandled_type_writes_nothing:
  "setShape putShape_atEnd 0 \<lparr>fileOffset_p = 0, arrOffset_p = 0, shape_p = []\<rparr> TpOther [2, 3]
     = (True, \<lparr>fileOffset_p = 0, arrOffset_p = 0, shape_p = [2, 3]\<rparr>, 0)
   \<and> setShape putShape_atEnd 0 \<lparr>fileOffset_p = 0, arrOffset_p = 0, shape_p = [2, 3]\<rparr> TpOther [2, 3]
     = (True, \<lparr>fileOffset_p = 0, arrOffset_p = 0, shape_p = [2, 3]\<rparr>, 0)
   \<and> setShape putShape_atEnd 0 \<lparr>fileOffset_p = 0, arrOffset_p = 0, shape_p = []\<rparr> TpInt [2, 3]
     = (True, \<lparr>fileOffset_p = 0, arrOffset_p = 16, shape_p = [2, 3]\<rparr>, 22)
   \<and> setShape putShape_atEnd 22 \<lparr>fileOffset_p = 0, arrOffset_p = 16, shape_p = [2, 3]\<rparr> TpInt [2, 3]
     = (False, \<lparr>fileOffset_p = 0, arrOffset_p = 16, shape_p = [2, 3]\<rparr>, 22)"
  by (simp add: setShape_def setShape_put_def putShape_atEnd_def product_def)

subsection \<open>The constructor from a row vector\<close>

lemma checkRownrs_Inr: "checkRownrs nmax rs = Inr u \<longleftrightarrow> list_all (\<lambda>r. unat r < nmax) rs"
  by (induction rs) (auto simp: not_le)

lemma checkRownrs_Inl:
  "\<not> list_all (\<lambda>r. unat r < nmax) rs \<Longrightarrow>
     \<exists>r\<in>set rs. nmax \<le> unat r \<and> checkRownrs nmax rs = Inl (IndexError r)"
  by (induction rs) (auto simp: not_le)

lemma adjust_loop_Inr:
  "adjust_loop rs rownrs = Inr out \<Longrightarrow>
     list_all (\<lambda>r. unat r < length rs) rownrs \<and> out = map (\<lambda>r. rs ! unat r) rownrs"
  by (induction rownrs arbitrary: out) (auto split: if_splits sum.splits)

lemma adjust_loop_in_range:
  "list_all (\<lambda>r. unat r < length rs) rownrs \<Longrightarrow> \<exists>out. adjust_loop rs rownrs = Inr out"
  by (induction rownrs) auto

lemma nth_in_take: "k < n \<Longrightarrow> n \<le> length xs \<Longrightarrow> xs ! k \<in> set (take n xs)"
  by (metis length_take min.absorb2 nth_mem nth_take)

lemma RefTable_fromRows_rejects:
  assumes "\<not> list_all (\<lambda>r. unat r < btp_nrow btp) rownrs"
  shows "\<exists>r\<in>set rownrs. btp_nrow btp \<le> unat r
           \<and> RefTable_fromRows plainOrd nm btp rownrs = Inl (IndexError r)"
  using checkRownrs_Inl [OF assms]
  by (auto simp: RefTable_fromRows_def Let_def rows_def)

lemma RefTable_fromRows_valid:
  assumes "RefTable_fromRows plainOrd nm btp rownrs = Inr t" and "validBase btp"
  shows "validRowMap t \<and> baseTabPtr_p t = root btp \<and> nrrow_p t = length rownrs"
proof (cases btp)
  case (Plain p)
  with assms show ?thesis
    by (auto simp: RefTable_fromRows_def Let_def rows_def validRowMap_def checkRownrs_Inr
        list_all_iff word_less_nat_alt split: sum.splits)
next
  case (Ref v)
  from assms Ref obtain out where
    chk: "list_all (\<lambda>r. unat r < nrrow_p v) rownrs" and
    adj: "adjust_loop (rowStorage_p v) rownrs = Inr out" and
    t: "t = \<lparr>baseTabPtr_p = baseTabPtr_p v, nrrow_p = length rownrs, rowOrd_p = order_loop out,
            rowStorage_p = out, nameMap_p = nm, changed_p = True\<rparr>"
    by (auto simp: RefTable_fromRows_def Let_def rows_def checkRownrs_Inr adjustRownrs_def
        split: sum.splits prod.splits if_splits)
  from adj have out: "out = map (\<lambda>r. rowStorage_p v ! unat r) rownrs"
    by (simp add: adjust_loop_Inr)
  from assms(2) Ref have v: "nrrow_p v \<le> length (rowStorage_p v)"
    "\<forall>r\<in>set (take (nrrow_p v) (rowStorage_p v)). r < nrow (baseTabPtr_p v)"
    by (simp_all add: validRowMap_def rows_def list_all_iff)
  have "rowStorage_p v ! unat r < nrow (baseTabPtr_p v)" if "r \<in> set rownrs" for r
  proof -
    from that chk have "unat r < nrrow_p v" by (simp add: list_all_iff)
    then show ?thesis using v nth_in_take by blast
  qed
  with t out Ref show ?thesis
    by (simp add: validRowMap_def rows_def list_all_iff)
qed

lemma RefTable_fromRows_accepts:
  assumes "list_all (\<lambda>r. unat r < btp_nrow btp) rownrs" and "validBase btp"
  shows "\<exists>t. RefTable_fromRows plainOrd nm btp rownrs = Inr t"
proof (cases btp)
  case (Plain p)
  with assms obtain u where "checkRownrs (unat (nrow p)) rownrs = Inr u"
    using checkRownrs_Inr by auto
  with Plain show ?thesis
    by (simp add: RefTable_fromRows_def Let_def rows_def)
next
  case (Ref v)
  with assms have chk: "checkRownrs (nrrow_p v) rownrs = Inr ()"
    by (simp add: checkRownrs_Inr)
  from assms Ref have "list_all (\<lambda>r. unat r < length (rowStorage_p v)) rownrs"
    by (auto simp: validRowMap_def list_all_iff)
  then obtain out where "adjust_loop (rowStorage_p v) rownrs = Inr out"
    using adjust_loop_in_range by blast
  with chk Ref show ?thesis
    by (simp add: RefTable_fromRows_def Let_def rows_def adjustRownrs_def)
qed

text \<open>
  C10.  The constructor from a row vector checks every row number against the number of
  rows of the table it is given before it keeps any: when some row number is not below
  that number, it throws the index error of such a row number; when it returns a view
  (and it does when all row numbers are below), and the table it was given is a plain
  table or a view with a valid row map, the view has as many rows as were given and all
  of them are row numbers of the root table.
\<close>

theorem RefTable_fromRows_validates:
  "(\<not> list_all (\<lambda>r. unat r < btp_nrow btp) rownrs \<longrightarrow>
      (\<exists>r\<in>set rownrs. btp_nrow btp \<le> unat r
         \<and> RefTable_fromRows plainOrd nm btp rownrs = Inl (IndexError r)))
   \<and> (validBase btp \<longrightarrow>
        (list_all (\<lambda>r. unat r < btp_nrow btp) rownrs \<longrightarrow>
           (\<exists>t. RefTable_fromRows plainOrd nm btp rownrs = Inr t))
        \<and> (\<forall>t. RefTable_fromRows plainOrd nm btp rownrs = Inr t \<longrightarrow>
             validRowMap t \<and> baseTabPtr_p t = root btp \<and> nrrow_p t = length rownrs))"
  using RefTable_fromRows_rejects RefTable_fromRows_valid RefTable_fromRows_accepts
  by blast

theorem RefTable_fromRows_validates_witness:
  "RefTable_fromRows True [] (Plain \<lparr>tableName = ''t'', nrow = 5, columns = []\<rparr>) [3, 7]
     = Inl (IndexError 7)
   \<and> validBase (Plain \<lparr>tableName = ''t'', nrow = 5, columns = []\<rparr>)
   \<and> list_all (\<lambda>r. unat r < btp_nrow (Plain \<lparr>tableName = ''t'', nrow = 5, columns = []\<rparr>))
        [3, 4, 0 :: rownr_t]
   \<and> (\<exists>t. RefTable_fromRows True [] (Plain \<lparr>tableName = ''t'', nrow = 5, columns = []\<rparr>)
             [3, 4, 0] = Inr t
          \<and> validRowMap t \<and> nrrow_p t = 3)"
proof -
  let ?p = "Plain \<lparr>tableName = ''t'', nrow = 5, columns = []\<rparr>"
  have bad: "\<not> list_all (\<lambda>r. unat r < btp_nrow ?p) [3, 7 :: rownr_t]" by simp
  have ok: "list_all (\<lambda>r. unat r < btp_nrow ?p) [3, 4, 0 :: rownr_t]" by simp
  have base: "validBase ?p" by simp
  have "\<exists>r\<in>set [3, 7]. btp_nrow ?p \<le> unat r
          \<and> RefTable_fromRows True [] ?p [3, 7] = Inl (IndexError r)"
    using RefTable_fromRows_validates [of ?p "[3, 7]" True "[]", THEN conjunct1] bad
    by (rule mp)
  then have 1: "RefTable_fromRows True [] ?p [3, 7] = Inl (IndexError 7)" by simp
  note v = RefTable_fromRows_validates [of ?p "[3, 4, 0]" True "[]", THEN conjunct2,
      THEN mp, OF base]
  have "\<exists>t. RefTable_fromRows True [] ?p [3, 4, 0] = Inr t"
    using v [THEN conjunct1] ok by (rule mp)
  then obtain t where t: "RefTable_fromRows True [] ?p [3, 4, 0] = Inr t" ..
  have "validRowMap t \<and> baseTabPtr_p t = root ?p \<and> nrrow_p t = length [3, 4, 0 :: rownr_t]"
    using v [THEN conjunct2, THEN spec, of t] t by (rule mp)
  then have "validRowMap t" "nrrow_p t = 3" by simp_all
  with 1 ok base t show ?thesis by blast
qed

subsection \<open>Set algebra on ascending row vectors\<close>

lemma refAnd_loop_merge: "refAnd_loop inx1 inx2 i1 i2 t = refMerge_loop True False False inx1 inx2 i1 i2 t"
  by (induction inx1 inx2 i1 i2 t rule: refAnd_loop.induct)
     (subst refAnd_loop.simps, subst refMerge_loop.simps, simp split: sum.splits)

lemma refOr_loop_merge: "refOr_loop inx1 inx2 i1 i2 t = refMerge_loop True True True inx1 inx2 i1 i2 t"
  by (induction inx1 inx2 i1 i2 t rule: refOr_loop.induct)
     (subst refOr_loop.simps, subst refMerge_loop.simps, simp split: sum.splits)

lemma refSub_loop_merge: "refSub_loop inx1 inx2 i1 i2 t = refMerge_loop False True False inx1 inx2 i1 i2 t"
  by (induction inx1 inx2 i1 i2 t rule: refSub_loop.induct)
     (subst refSub_loop.simps, subst refMerge_loop.simps, simp split: sum.splits)

lemma refXor_loop_merge: "refXor_loop inx1 inx2 i1 i2 t = refMerge_loop False True True inx1 inx2 i1 i2 t"
  by (induction inx1 inx2 i1 i2 t rule: refXor_loop.induct)
     (subst refXor_loop.simps, subst refMerge_loop.simps, simp split: sum.splits)

lemma storeRow_rows:
  assumes "nrrow_p t < length (rowStorage_p t)"
  shows "\<exists>t'. storeRow t r = Inr t' \<and> rows t' = rows t @ [r] \<and> nrrow_p t' = nrrow_p t + 1
           \<and> length (rowStorage_p t') = length (rowStorage_p t)"
  using assms by (simp add: storeRow_def rows_def take_Suc_conv_app_nth)

lemma drop_nth_Cons: "i < length xs \<Longrightarrow> drop i xs = xs ! i # drop (Suc i) xs"
  by (simp add: Cons_nth_drop_Suc)

lemma rownr_less_max: "(x::rownr_t) \<noteq> rownr_max \<Longrightarrow> x < rownr_max"
  by (simp add: rownr_max_def less_le)

lemma refMerge_loop_rows:
  assumes "rownr_max \<notin> set inx1" and "rownr_max \<notin> set inx2"
    and "nrrow_p t + length (mergeRows both left right (drop i1 inx1) (drop i2 inx2))
           \<le> length (rowStorage_p t)"
  shows "\<exists>t'. refMerge_loop both left right inx1 inx2 i1 i2 t = Inr t'
           \<and> rows t' = rows t @ mergeRows both left right (drop i1 inx1) (drop i2 inx2)
           \<and> length (rowStorage_p t') = length (rowStorage_p t)
           \<and> nrrow_p t' = nrrow_p t + length (mergeRows both left right (drop i1 inx1) (drop i2 inx2))"
  using assms
proof (induction both left right inx1 inx2 i1 i2 t rule: refMerge_loop.induct)
  case (1 both left right inx1 inx2 i1 i2 t)
  let ?M = "mergeRows both left right"
  let ?L = "refMerge_loop both left right inx1 inx2"
  let ?post = "\<lambda>t0 j1 j2 t'. rows t' = rows t0 @ ?M (drop j1 inx1) (drop j2 inx2)
           \<and> length (rowStorage_p t') = length (rowStorage_p t0)
           \<and> nrrow_p t' = nrrow_p t0 + length (?M (drop j1 inx1) (drop j2 inx2))"
  note cap = "1.prems"(3)
  have store: "\<exists>t'. ?L i1 i2 t = Inr t' \<and> ?post t i1 i2 t'"
    if unfold: "?L i1 i2 t = (case storeRow t r of Inl e \<Rightarrow> Inl e | Inr t1 \<Rightarrow> ?L j1 j2 t1)"
      and M: "?M (drop i1 inx1) (drop i2 inx2) = r # ?M (drop j1 inx1) (drop j2 inx2)"
      and IH: "\<And>t1. storeRow t r = Inr t1 \<Longrightarrow>
             nrrow_p t1 + length (?M (drop j1 inx1) (drop j2 inx2)) \<le> length (rowStorage_p t1) \<Longrightarrow>
             \<exists>t'. ?L j1 j2 t1 = Inr t' \<and> ?post t1 j1 j2 t'"
    for r j1 j2
  proof -
    from cap M have c: "nrrow_p t < length (rowStorage_p t)" by simp
    from storeRow_rows [OF c, of r] obtain t1 where
      t1: "storeRow t r = Inr t1" "rows t1 = rows t @ [r]" "nrrow_p t1 = nrrow_p t + 1"
      "length (rowStorage_p t1) = length (rowStorage_p t)" by blast
    with cap M have "nrrow_p t1 + length (?M (drop j1 inx1) (drop j2 inx2))
        \<le> length (rowStorage_p t1)" by simp
    from IH [OF t1(1) this] t1 unfold M show ?thesis by auto
  qed
  have skip: "\<exists>t'. ?L i1 i2 t = Inr t' \<and> ?post t i1 i2 t'"
    if unfold: "?L i1 i2 t = ?L j1 j2 t"
      and M: "?M (drop i1 inx1) (drop i2 inx2) = ?M (drop j1 inx1) (drop j2 inx2)"
      and IH: "nrrow_p t + length (?M (drop j1 inx1) (drop j2 inx2)) \<le> length (rowStorage_p t) \<Longrightarrow>
             \<exists>t'. ?L j1 j2 t = Inr t' \<and> ?post t j1 j2 t'"
    for j1 j2
    using IH cap unfold M by simp
  note prems = "1.prems"(1,2)
  consider (A) "length inx1 \<le> i1" "length inx2 \<le> i2"
    | (B) "i1 < length inx1" "length inx2 \<le> i2"
    | (C) "length inx1 \<le> i1" "i2 < length inx2"
    | (D) "i1 < length inx1" "i2 < length inx2"
    by linarith
  then show ?case
  proof cases
    case A
    then show ?thesis
      by (subst refMerge_loop.simps) (simp add: nextRow_def)
  next
    case B
    then have x: "inx1 ! i1 \<noteq> rownr_max" "inx1 ! i1 < rownr_max"
      using prems(1) rownr_less_max nth_mem by metis+
    have nr: "nextRow inx1 i1 = inx1 ! i1" "nextRow inx2 i2 = rownr_max"
      using B by (simp_all add: nextRow_def)
    have M: "?M (drop i1 inx1) (drop i2 inx2) =
        (if left then inx1 ! i1 # ?M (drop (i1 + 1) inx1) (drop i2 inx2)
         else ?M (drop (i1 + 1) inx1) (drop i2 inx2))"
      using B by (simp add: drop_nth_Cons)
    show ?thesis
    proof (cases left)
      case True
      show ?thesis
      proof (rule store [where r = "inx1 ! i1" and ?j1.0 = "i1 + 1" and ?j2.0 = i2])
        show "?L i1 i2 t = (case storeRow t (inx1 ! i1) of Inl e \<Rightarrow> Inl e
                            | Inr t1 \<Rightarrow> ?L (i1 + 1) i2 t1)"
          using nr x True by (subst refMerge_loop.simps) simp
      qed (use M True "1.IH"(3) nr x prems in simp_all)
    next
      case False
      show ?thesis
      proof (rule skip [where ?j1.0 = "i1 + 1" and ?j2.0 = i2])
        show "?L i1 i2 t = ?L (i1 + 1) i2 t"
          using nr x False by (subst refMerge_loop.simps) simp
      qed (use M False "1.IH"(4) nr x prems in simp_all)
    qed
  next
    case C
    then have y: "inx2 ! i2 \<noteq> rownr_max" "inx2 ! i2 < rownr_max"
      using prems(2) rownr_less_max nth_mem by metis+
    have nr: "nextRow inx1 i1 = rownr_max" "nextRow inx2 i2 = inx2 ! i2"
      using C by (simp_all add: nextRow_def)
    have M: "?M (drop i1 inx1) (drop i2 inx2) =
        (if right then inx2 ! i2 # ?M (drop i1 inx1) (drop (i2 + 1) inx2)
         else ?M (drop i1 inx1) (drop (i2 + 1) inx2))"
      using C by (simp add: drop_nth_Cons)
    from y have ny: "\<not> rownr_max < inx2 ! i2" "rownr_max \<noteq> inx2 ! i2" by auto
    show ?thesis
    proof (cases right)
      case True
      show ?thesis
      proof (rule store [where r = "inx2 ! i2" and ?j1.0 = i1 and ?j2.0 = "i2 + 1"])
        show "?L i1 i2 t = (case storeRow t (inx2 ! i2) of Inl e \<Rightarrow> Inl e
                            | Inr t1 \<Rightarrow> ?L i1 (i2 + 1) t1)"
          using nr ny True by (subst refMerge_loop.simps) simp
      qed (use M True "1.IH"(5) nr ny prems in simp_all)
    next
      case False
      show ?thesis
      proof (rule skip [where ?j1.0 = i1 and ?j2.0 = "i2 + 1"])
        show "?L i1 i2 t = ?L i1 (i2 + 1) t"
          using nr ny False by (subst refMerge_loop.simps) simp
      qed (use M False "1.IH"(6) nr ny prems in simp_all)
    qed
  next
    case D
    then have x: "inx1 ! i1 \<noteq> rownr_max" and y: "inx2 ! i2 \<noteq> rownr_max"
      using prems nth_mem by metis+
    have nr: "nextRow inx1 i1 = inx1 ! i1" "nextRow inx2 i2 = inx2 ! i2"
      using D by (simp_all add: nextRow_def)
    have dr: "drop i1 inx1 = inx1 ! i1 # drop (i1 + 1) inx1"
      "drop i2 inx2 = inx2 ! i2 # drop (i2 + 1) inx2"
      using D by (simp_all add: drop_nth_Cons)
    consider (eq) "inx1 ! i1 = inx2 ! i2" | (lt) "inx1 ! i1 < inx2 ! i2"
      | (gt) "inx2 ! i2 < inx1 ! i1"
      by fastforce
    then show ?thesis
    proof cases
      case eq
      have "?M (inx1 ! i1 # drop (i1 + 1) inx1) (inx2 ! i2 # drop (i2 + 1) inx2) =
        (if both then inx1 ! i1 # ?M (drop (i1 + 1) inx1) (drop (i2 + 1) inx2)
         else ?M (drop (i1 + 1) inx1) (drop (i2 + 1) inx2))"
        using eq by simp
      then have M: "?M (drop i1 inx1) (drop i2 inx2) =
        (if both then inx1 ! i1 # ?M (drop (i1 + 1) inx1) (drop (i2 + 1) inx2)
         else ?M (drop (i1 + 1) inx1) (drop (i2 + 1) inx2))"
        unfolding dr [symmetric] .
      show ?thesis
      proof (cases both)
        case True
        show ?thesis
        proof (rule store [where r = "inx1 ! i1" and ?j1.0 = "i1 + 1" and ?j2.0 = "i2 + 1"])
          show "?L i1 i2 t = (case storeRow t (inx1 ! i1) of Inl e \<Rightarrow> Inl e
                              | Inr t1 \<Rightarrow> ?L (i1 + 1) (i2 + 1) t1)"
            using nr x eq True by (subst refMerge_loop.simps) simp
        qed (use M True "1.IH"(1) nr x eq prems in simp_all)
      next
        case False
        show ?thesis
        proof (rule skip [where ?j1.0 = "i1 + 1" and ?j2.0 = "i2 + 1"])
          show "?L i1 i2 t = ?L (i1 + 1) (i2 + 1) t"
            using nr x eq False by (subst refMerge_loop.simps) simp
        qed (use M False "1.IH"(2) nr x eq prems in simp_all)
      qed
    next
      case lt
      then have ne: "inx1 ! i1 \<noteq> inx2 ! i2" by auto
      have "?M (inx1 ! i1 # drop (i1 + 1) inx1) (inx2 ! i2 # drop (i2 + 1) inx2) =
        (if left then inx1 ! i1 # ?M (drop (i1 + 1) inx1) (inx2 ! i2 # drop (i2 + 1) inx2)
         else ?M (drop (i1 + 1) inx1) (inx2 ! i2 # drop (i2 + 1) inx2))"
        using lt ne by simp
      then have M: "?M (drop i1 inx1) (drop i2 inx2) =
        (if left then inx1 ! i1 # ?M (drop (i1 + 1) inx1) (drop i2 inx2)
         else ?M (drop (i1 + 1) inx1) (drop i2 inx2))"
        unfolding dr [symmetric] .
      show ?thesis
      proof (cases left)
        case True
        show ?thesis
        proof (rule store [where r = "inx1 ! i1" and ?j1.0 = "i1 + 1" and ?j2.0 = i2])
          show "?L i1 i2 t = (case storeRow t (inx1 ! i1) of Inl e \<Rightarrow> Inl e
                              | Inr t1 \<Rightarrow> ?L (i1 + 1) i2 t1)"
            using nr lt ne True by (subst refMerge_loop.simps) simp
        qed (use M True "1.IH"(3) nr lt ne prems in simp_all)
      next
        case False
        show ?thesis
        proof (rule skip [where ?j1.0 = "i1 + 1" and ?j2.0 = i2])
          show "?L i1 i2 t = ?L (i1 + 1) i2 t"
            using nr lt ne False by (subst refMerge_loop.simps) simp
        qed (use M False "1.IH"(4) nr lt ne prems in simp_all)
      qed
    next
      case gt
      then have ne: "inx1 ! i1 \<noteq> inx2 ! i2" "\<not> inx1 ! i1 < inx2 ! i2" by auto
      have "?M (inx1 ! i1 # drop (i1 + 1) inx1) (inx2 ! i2 # drop (i2 + 1) inx2) =
        (if right then inx2 ! i2 # ?M (inx1 ! i1 # drop (i1 + 1) inx1) (drop (i2 + 1) inx2)
         else ?M (inx1 ! i1 # drop (i1 + 1) inx1) (drop (i2 + 1) inx2))"
        using gt ne by simp
      then have M: "?M (drop i1 inx1) (drop i2 inx2) =
        (if right then inx2 ! i2 # ?M (drop i1 inx1) (drop (i2 + 1) inx2)
         else ?M (drop i1 inx1) (drop (i2 + 1) inx2))"
        unfolding dr [symmetric] .
      show ?thesis
      proof (cases right)
        case True
        show ?thesis
        proof (rule store [where r = "inx2 ! i2" and ?j1.0 = i1 and ?j2.0 = "i2 + 1"])
          show "?L i1 i2 t = (case storeRow t (inx2 ! i2) of Inl e \<Rightarrow> Inl e
                              | Inr t1 \<Rightarrow> ?L i1 (i2 + 1) t1)"
            using nr gt ne True by (subst refMerge_loop.simps) simp
        qed (use M True "1.IH"(5) nr gt ne prems in simp_all)
      next
        case False
        show ?thesis
        proof (rule skip [where ?j1.0 = i1 and ?j2.0 = "i2 + 1"])
          show "?L i1 i2 t = ?L i1 (i2 + 1) t"
            using nr gt ne False by (subst refMerge_loop.simps) simp
        qed (use M False "1.IH"(6) nr gt ne prems in simp_all)
      qed
    qed
  qed
qed

lemma mergeRows_subset: "set (mergeRows b l r xs ys) \<subseteq> set xs \<union> set ys"
  by (induction b l r xs ys rule: mergeRows.induct) auto

lemma set_mergeRows:
  "sorted_wrt (<) xs \<Longrightarrow> sorted_wrt (<) ys \<Longrightarrow>
   set (mergeRows b l r xs ys) =
     (if b then set xs \<inter> set ys else {}) \<union> (if l then set xs - set ys else {})
     \<union> (if r then set ys - set xs else {})"
proof (induction b l r xs ys rule: mergeRows.induct)
  case (4 both left right x xs y ys)
  then have sx: "\<forall>z\<in>set xs. x < z" "sorted_wrt (<) xs"
    and sy: "\<forall>z\<in>set ys. y < z" "sorted_wrt (<) ys" by simp_all
  have nx: "x \<notin> set xs" and ny: "y \<notin> set ys" using sx sy by auto
  consider (eq) "x = y" | (lt) "x < y" | (gt) "y < x" by fastforce
  then show ?case
  proof cases
    case eq
    from 4 eq have IH: "set (mergeRows both left right xs ys) =
      (if both then set xs \<inter> set ys else {}) \<union> (if left then set xs - set ys else {})
     \<union> (if right then set ys - set xs else {})" by (cases both) simp_all
    have "mergeRows both left right (x # xs) (y # ys) =
       (if both then x # mergeRows both left right xs ys else mergeRows both left right xs ys)"
      using eq by simp
    then show ?thesis using IH eq nx ny by (cases both; cases left; cases right) auto
  next
    case lt
    then have a: "x \<noteq> y" "x \<notin> set ys" using sy by auto
    from 4 lt a have IH: "set (mergeRows both left right xs (y # ys)) =
      (if both then set xs \<inter> set (y # ys) else {}) \<union> (if left then set xs - set (y # ys) else {})
     \<union> (if right then set (y # ys) - set xs else {})" by (cases left) simp_all
    have "mergeRows both left right (x # xs) (y # ys) =
       (if left then x # mergeRows both left right xs (y # ys) else mergeRows both left right xs (y # ys))"
      using lt a by simp
    then show ?thesis using IH a nx by (cases both; cases left; cases right) auto
  next
    case gt
    then have a: "x \<noteq> y" "\<not> x < y" "y \<notin> set xs" using sx by auto
    from 4 gt a have IH: "set (mergeRows both left right (x # xs) ys) =
      (if both then set (x # xs) \<inter> set ys else {}) \<union> (if left then set (x # xs) - set ys else {})
     \<union> (if right then set ys - set (x # xs) else {})" by (cases right) simp_all
    have "mergeRows both left right (x # xs) (y # ys) =
       (if right then y # mergeRows both left right (x # xs) ys else mergeRows both left right (x # xs) ys)"
      using gt a by simp
    then show ?thesis using IH a ny by (cases both; cases left; cases right) auto
  qed
qed auto

lemma sorted_mergeRows:
  "sorted_wrt (<) xs \<Longrightarrow> sorted_wrt (<) ys \<Longrightarrow> sorted_wrt (<) (mergeRows b l r xs ys)"
proof (induction b l r xs ys rule: mergeRows.induct)
  case (4 both left right x xs y ys)
  then have sx: "\<forall>z\<in>set xs. x < z" "sorted_wrt (<) xs"
    and sy: "\<forall>z\<in>set ys. y < z" "sorted_wrt (<) ys" by simp_all
  consider (eq) "x = y" | (lt) "x < y" | (gt) "y < x" by fastforce
  then show ?case
  proof cases
    case eq
    have "\<forall>z\<in>set (mergeRows both left right xs ys). x < z"
      using mergeRows_subset [of both left right xs ys] sx sy eq by auto
    moreover from 4 eq have "sorted_wrt (<) (mergeRows both left right xs ys)"
      by (cases both) simp_all
    ultimately show ?thesis using eq by (cases both) simp_all
  next
    case lt
    then have a: "x \<noteq> y" by auto
    from lt sy have "\<forall>z\<in>set ys. x < z" by (auto dest: order.strict_trans)
    then have "\<forall>z\<in>set (mergeRows both left right xs (y # ys)). x < z"
      using mergeRows_subset [of both left right xs "y # ys"] sx lt by auto
    moreover from 4 lt a have "sorted_wrt (<) (mergeRows both left right xs (y # ys))"
      by (cases left) simp_all
    ultimately show ?thesis using lt a by (cases left) simp_all
  next
    case gt
    then have a: "x \<noteq> y" "\<not> x < y" by auto
    from gt sx have "\<forall>z\<in>set xs. y < z" by (auto dest: order.strict_trans)
    then have "\<forall>z\<in>set (mergeRows both left right (x # xs) ys). y < z"
      using mergeRows_subset [of both left right "x # xs" ys] sy gt by auto
    moreover from 4 gt a have "sorted_wrt (<) (mergeRows both left right (x # xs) ys)"
      by (cases right) simp_all
    ultimately show ?thesis using gt a by (cases right) simp_all
  qed
next
  case (2 both left right x xs)
  then show ?case using mergeRows_subset [of both left right xs "[]"] by auto
next
  case (3 both left right y ys)
  then show ?case using mergeRows_subset [of both left right "[]" ys] by auto
qed simp

lemma length_mergeRows: "length (mergeRows b l r xs ys) \<le> length xs + length ys"
  by (induction b l r xs ys rule: mergeRows.induct) auto

lemma length_mergeRows_left: "length (mergeRows b l False xs ys) \<le> length xs"
  by (induction b l "False" xs ys rule: mergeRows.induct) auto

lemma length_mergeRows_both: "length (mergeRows b False False xs ys) \<le> min (length xs) (length ys)"
  by (induction b "False" "False" xs ys rule: mergeRows.induct) auto

lemma storedRows_setChanged: "storedRows (setChanged r) = storedRows r"
  by (simp add: storedRows_def setChanged_def rows_def split: sum.splits)

lemma storedRows_merge:
  assumes "rownr_max \<notin> set inx1" and "rownr_max \<notin> set inx2" and "nrrow_p t = 0"
    and "length (mergeRows both left right inx1 inx2) \<le> n"
  shows "storedRows (refMerge_loop both left right inx1 inx2 0 0 (resizeStorage t n))
           = Some (mergeRows both left right inx1 inx2)"
proof -
  let ?t = "resizeStorage t n"
  have "nrrow_p ?t + length (mergeRows both left right (drop 0 inx1) (drop 0 inx2))
          \<le> length (rowStorage_p ?t)"
    using assms(3,4) by (simp add: resizeStorage_def)
  from refMerge_loop_rows [OF assms(1,2) this] assms(3)
  show ?thesis by (auto simp: storedRows_def rows_def resizeStorage_def)
qed

lemma storedRows_refAnd:
  assumes "rownr_max \<notin> set inx1" and "rownr_max \<notin> set inx2" and "nrrow_p t = 0"
  shows "storedRows (refAnd t inx1 inx2) = Some (mergeRows True False False inx1 inx2)"
proof -
  have "length (mergeRows True False False inx1 inx2)
          \<le> (if length inx1 < length inx2 then length inx1 else length inx2)"
    using length_mergeRows_both [of True inx1 inx2] by (auto simp: min_def split: if_splits)
  from storedRows_merge [OF assms this] show ?thesis
    by (simp add: refAnd_def storedRows_setChanged refAnd_loop_merge)
qed

lemma storedRows_refOr:
  assumes "rownr_max \<notin> set inx1" and "rownr_max \<notin> set inx2" and "nrrow_p t = 0"
  shows "storedRows (refOr t inx1 inx2) = Some (mergeRows True True True inx1 inx2)"
  using storedRows_merge [OF assms length_mergeRows]
  by (simp add: refOr_def storedRows_setChanged refOr_loop_merge)

lemma storedRows_refSub:
  assumes "rownr_max \<notin> set inx1" and "rownr_max \<notin> set inx2" and "nrrow_p t = 0"
  shows "storedRows (refSub t inx1 inx2) = Some (mergeRows False True False inx1 inx2)"
  using storedRows_merge [OF assms length_mergeRows_left]
  by (simp add: refSub_def storedRows_setChanged refSub_loop_merge)

lemma storedRows_refXor:
  assumes "rownr_max \<notin> set inx1" and "rownr_max \<notin> set inx2" and "nrrow_p t = 0"
  shows "storedRows (refXor t inx1 inx2) = Some (mergeRows False True True inx1 inx2)"
  using storedRows_merge [OF assms length_mergeRows]
  by (simp add: refXor_def storedRows_setChanged refXor_loop_merge)

subsection \<open>refNot\<close>

lemma unat_succ: "(j::rownr_t) < stop \<Longrightarrow> unat (j + 1) = Suc (unat j)"
  by unat_arith

lemma rowRange_Cons: "j < stop \<Longrightarrow> rowRange j stop = j # rowRange (j + 1) stop"
  by (simp add: rowRange_def unat_succ word_less_nat_alt upt_conv_Cons)

lemma rowRange_empty: "\<not> j < stop \<Longrightarrow> rowRange j stop = []"
  by (simp add: rowRange_def word_less_nat_alt)

lemma length_rowRange: "length (rowRange a b) = unat b - unat a"
  by (simp add: rowRange_def)

lemma refNot_fill_rows:
  "nrrow_p t + length (rowRange j stop) \<le> length (rowStorage_p t) \<Longrightarrow>
   \<exists>t'. refNot_fill j stop t = Inr t' \<and> rows t' = rows t @ rowRange j stop
        \<and> length (rowStorage_p t') = length (rowStorage_p t)
        \<and> nrrow_p t' = nrrow_p t + length (rowRange j stop)"
proof (induction j stop t rule: refNot_fill.induct)
  case (1 j stop t)
  show ?case
  proof (cases "j < stop")
    case True
    with "1.prems" have c: "nrrow_p t < length (rowStorage_p t)"
      by (simp add: rowRange_Cons)
    from storeRow_rows [OF c, of j] obtain t1 where
      t1: "storeRow t j = Inr t1" "rows t1 = rows t @ [j]" "nrrow_p t1 = nrrow_p t + 1"
      "length (rowStorage_p t1) = length (rowStorage_p t)" by blast
    with "1.prems" True have "nrrow_p t1 + length (rowRange (j + 1) stop)
        \<le> length (rowStorage_p t1)" by (simp add: rowRange_Cons)
    from "1.IH" [OF True t1(1) this] t1 True show ?thesis
      by (subst refNot_fill.simps) (auto simp: rowRange_Cons)
  next
    case False
    then show ?thesis
      by (subst refNot_fill.simps) (simp add: rowRange_empty)
  qed
qed

lemma refNot_loop_rows:
  "nrrow_p t + length (notRows start inx nrtot) \<le> length (rowStorage_p t) \<Longrightarrow>
   \<exists>start' t1 t'. refNot_loop inx start t = Inr (start', t1)
        \<and> refNot_fill start' nrtot t1 = Inr t'
        \<and> rows t' = rows t @ notRows start inx nrtot"
proof (induction inx arbitrary: start t)
  case Nil
  then show ?case using refNot_fill_rows [of t start nrtot] by auto
next
  case (Cons r inx)
  from Cons.prems have "nrrow_p t + length (rowRange start r) \<le> length (rowStorage_p t)"
    by simp
  from refNot_fill_rows [OF this] obtain t1 where
    t1: "refNot_fill start r t = Inr t1" "rows t1 = rows t @ rowRange start r"
    "length (rowStorage_p t1) = length (rowStorage_p t)"
    "nrrow_p t1 = nrrow_p t + length (rowRange start r)" by blast
  with Cons.prems have "nrrow_p t1 + length (notRows (r + 1) inx nrtot) \<le> length (rowStorage_p t1)"
    by simp
  from Cons.IH [OF this] t1 show ?case by auto
qed

lemma unat_of_nat_below: "n < unat (b::rownr_t) \<Longrightarrow> unat (word_of_nat n :: rownr_t) = n"
proof -
  assume "n < unat b"
  moreover have "unat b < 2 ^ LENGTH(64)" by (rule unsigned_less)
  ultimately have "n < 2 ^ LENGTH(64)" by (rule less_trans)
  then show ?thesis by (simp add: unat_of_nat take_bit_nat_eq_self)
qed

lemma set_rowRange: "set (rowRange a b) = {x. a \<le> x \<and> x < b}"
proof (intro set_eqI iffI)
  fix x assume "x \<in> set (rowRange a b)"
  then obtain n where n: "x = word_of_nat n" "unat a \<le> n" "n < unat b"
    by (auto simp: rowRange_def)
  then have "unat x = n" by (simp add: unat_of_nat_below)
  with n show "x \<in> {x. a \<le> x \<and> x < b}"
    by (simp add: word_le_nat_alt word_less_nat_alt)
next
  fix x assume "x \<in> {x. a \<le> x \<and> x < b}"
  then have "unat a \<le> unat x" "unat x < unat b"
    by (simp_all add: word_le_nat_alt word_less_nat_alt)
  then have "unat x \<in> set [unat a..<unat b]" by simp
  moreover have "x = word_of_nat (unat x)" by simp
  ultimately have "x \<in> word_of_nat ` set [unat a..<unat b]" by (rule rev_image_eqI)
  then show "x \<in> set (rowRange a b)" by (simp only: rowRange_def set_map)
qed

lemma sorted_rowRange: "sorted_wrt (<) (rowRange a b)"
proof -
  have "sorted_wrt (\<lambda>x y. (word_of_nat x :: rownr_t) < word_of_nat y) [unat a..<unat b]"
  proof (rule sorted_wrt_mono_rel [of _ "(<)"])
    fix x y assume "x \<in> set [unat a..<unat b]" "y \<in> set [unat a..<unat b]" "x < y"
    then have "x < unat b" "y < unat b" by simp_all
    then have "unat (word_of_nat x :: rownr_t) = x" "unat (word_of_nat y :: rownr_t) = y"
      by (simp_all add: unat_of_nat_below)
    with \<open>x < y\<close> show "(word_of_nat x :: rownr_t) < word_of_nat y"
      by (simp add: word_less_nat_alt)
  qed simp
  then show ?thesis by (simp add: rowRange_def sorted_wrt_map)
qed

lemma succ_le_less: "(r::rownr_t) < n \<Longrightarrow> r + 1 \<le> y \<longleftrightarrow> r < y"
  by unat_arith

lemma range_split:
  fixes r :: "'a::linorder"
  assumes "s \<le> r" and "r < n" and "\<forall>x\<in>I. r < x"
  shows "{x. s \<le> x \<and> x < r} \<union> ({x. r < x \<and> x < n} - I) = {x. s \<le> x \<and> x < n} - insert r I"
  using assms by (auto simp: not_less)

lemma notRows_props:
  assumes "sorted_wrt (<) inx" and "\<forall>x\<in>set inx. start \<le> x \<and> x < nrtot"
  shows "set (notRows start inx nrtot) = {x. start \<le> x \<and> x < nrtot} - set inx
         \<and> sorted_wrt (<) (notRows start inx nrtot)
         \<and> length (notRows start inx nrtot) + length inx = unat nrtot - unat start"
  using assms
proof (induction inx arbitrary: start)
  case Nil
  then show ?case by (simp add: set_rowRange sorted_rowRange length_rowRange)
next
  case (Cons r inx)
  then have r: "start \<le> r" "r < nrtot" and gt: "\<forall>x\<in>set inx. r < x"
    and s: "sorted_wrt (<) inx" and b: "\<forall>x\<in>set inx. x < nrtot" by simp_all
  from gt r b have "\<forall>x\<in>set inx. r + 1 \<le> x \<and> x < nrtot"
    by (simp add: succ_le_less)
  from Cons.IH [OF s this] have
    IH: "set (notRows (r + 1) inx nrtot) = {x. r + 1 \<le> x \<and> x < nrtot} - set inx"
      "sorted_wrt (<) (notRows (r + 1) inx nrtot)"
      "length (notRows (r + 1) inx nrtot) + length inx = unat nrtot - unat (r + 1)"
    by simp_all
  have set_eq: "set (notRows start (r # inx) nrtot) = {x. start \<le> x \<and> x < nrtot} - set (r # inx)"
  proof -
    have "{x. start \<le> x \<and> x < r} \<union> ({x. r < x \<and> x < nrtot} - set inx)
        = {x. start \<le> x \<and> x < nrtot} - insert r (set inx)"
      using r gt by (rule range_split)
    moreover have "{x. r + 1 \<le> x \<and> x < nrtot} = {x. r < x \<and> x < nrtot}"
      using r(2) by (simp add: succ_le_less)
    ultimately show ?thesis by (simp add: IH(1) set_rowRange)
  qed
  have sorted: "sorted_wrt (<) (notRows start (r # inx) nrtot)"
  proof -
    have "x < y" if "x \<in> set (rowRange start r)" "y \<in> set (notRows (r + 1) inx nrtot)" for x y
    proof -
      from that(1) have "x < r" by (simp add: set_rowRange)
      moreover from that(2) have "r + 1 \<le> y" by (simp add: IH(1))
      then have "r < y" using r(2) by (simp add: succ_le_less)
      ultimately show ?thesis by (rule less_trans)
    qed
    then show ?thesis by (simp add: sorted_wrt_append sorted_rowRange IH(2))
  qed
  have "unat (r + 1) = Suc (unat r)" using r(2) by (rule unat_succ)
  moreover have "unat start \<le> unat r" "unat r < unat nrtot"
    using r by (simp_all add: word_le_nat_alt word_less_nat_alt)
  ultimately have len: "length (notRows start (r # inx) nrtot) + length (r # inx)
      = unat nrtot - unat start"
    using IH(3) by (simp add: length_rowRange)
  from set_eq sorted len show ?case by blast
qed

lemma storedRows_refNot:
  assumes "sorted_wrt (<) inx" and "\<forall>x\<in>set inx. x < nrtot" and "nrrow_p t = 0"
  shows "storedRows (refNot t inx nrtot) = Some (notRows 0 inx nrtot)"
proof -
  from notRows_props [OF assms(1), of 0 nrtot] assms(2)
  have len: "length (notRows 0 inx nrtot) + length inx = unat nrtot" by simp
  then have "length inx \<le> unat nrtot" by simp
  then have k: "unat (word_of_nat (length inx) :: rownr_t) = length inx"
    by (rule le_unat_uoi)
  then have "(word_of_nat (length inx) :: rownr_t) \<le> nrtot"
    using \<open>length inx \<le> unat nrtot\<close> by (simp add: word_le_nat_alt)
  then have "unat (nrtot - word_of_nat (length inx)) = unat nrtot - length inx"
    using k by (simp add: unat_sub)
  with len have cap: "unat (nrtot - word_of_nat (length inx)) = length (notRows 0 inx nrtot)"
    by simp
  let ?t = "resizeStorage t (unat (nrtot - word_of_nat (length inx)))"
  have "nrrow_p ?t + length (notRows 0 inx nrtot) \<le> length (rowStorage_p ?t)"
    using assms(3) cap by (simp add: resizeStorage_def)
  from refNot_loop_rows [OF this] obtain start' t1 t' where
    "refNot_loop inx 0 ?t = Inr (start', t1)" "refNot_fill start' nrtot t1 = Inr t'"
    "rows t' = rows ?t @ notRows 0 inx nrtot" by blast
  then show ?thesis using assms(3)
    by (simp add: refNot_def storedRows_setChanged)
       (simp add: storedRows_def rows_def resizeStorage_def)
qed

lemma below_not_max: "\<forall>r\<in>set A. r < (N::rownr_t) \<Longrightarrow> rownr_max \<notin> set A"
  by (auto simp: rownr_max_def)

text \<open>
  C5.  For strictly ascending sequences \<open>A\<close> and \<open>B\<close> of row numbers of a table with
  \<open>N\<close> rows, run on a reference table that has no rows yet: \<open>refAnd\<close> stores exactly
  the rows in both, \<open>refOr\<close> the union without duplicates, \<open>refSub\<close> the rows of \<open>A\<close>
  not in \<open>B\<close>, \<open>refXor\<close> the rows in exactly one of them and \<open>refNot\<close> the rows below
  \<open>N\<close> not in \<open>A\<close>, each strictly ascending; and \<open>OR(A, A) = A\<close>,
  \<open>SUBTRACT(A, A)\<close> is empty, \<open>XOR(A, B) = SUBTRACT(OR(A, B), AND(A, B))\<close> and
  \<open>NOT(NOT(A, N), N) = A\<close>.
\<close>

theorem refTable_set_algebra:
  assumes "sorted_wrt (<) A" and "sorted_wrt (<) B"
    and "\<forall>r\<in>set A. r < N" and "\<forall>r\<in>set B. r < N" and "nrrow_p t = 0"
  shows
    "(\<exists>R. storedRows (refAnd t A B) = Some R \<and> sorted_wrt (<) R \<and> set R = set A \<inter> set B)
   \<and> (\<exists>R. storedRows (refOr t A B) = Some R \<and> sorted_wrt (<) R \<and> set R = set A \<union> set B)
   \<and> (\<exists>R. storedRows (refSub t A B) = Some R \<and> sorted_wrt (<) R \<and> set R = set A - set B)
   \<and> (\<exists>R. storedRows (refXor t A B) = Some R \<and> sorted_wrt (<) R
          \<and> set R = (set A - set B) \<union> (set B - set A))
   \<and> (\<exists>R. storedRows (refNot t A N) = Some R \<and> sorted_wrt (<) R
          \<and> set R = {r. r < N} - set A)
   \<and> storedRows (refOr t A A) = Some A
   \<and> storedRows (refSub t A A) = Some []
   \<and> (\<exists>U I. storedRows (refOr t A B) = Some U \<and> storedRows (refAnd t A B) = Some I
          \<and> storedRows (refSub t U I) = storedRows (refXor t A B))
   \<and> (\<exists>R. storedRows (refNot t A N) = Some R \<and> storedRows (refNot t R N) = Some A)"
proof -
  note mA = below_not_max [OF assms(3)] and mB = below_not_max [OF assms(4)]
  note sA = assms(1) and sB = assms(2) and t = assms(5)
  let ?and = "mergeRows True False False A B"
  let ?or = "mergeRows True True True A B"
  let ?sub = "mergeRows False True False A B"
  let ?xor = "mergeRows False True True A B"
  let ?not = "notRows 0 A N"
  have "and": "storedRows (refAnd t A B) = Some ?and" "sorted_wrt (<) ?and"
    "set ?and = set A \<inter> set B"
    using storedRows_refAnd [OF mA mB t] sorted_mergeRows [OF sA sB]
      set_mergeRows [OF sA sB, of True False False] by simp_all
  have or: "storedRows (refOr t A B) = Some ?or" "sorted_wrt (<) ?or"
    "set ?or = set A \<union> set B"
    using storedRows_refOr [OF mA mB t] sorted_mergeRows [OF sA sB]
      set_mergeRows [OF sA sB, of True True True] by auto
  have sub: "storedRows (refSub t A B) = Some ?sub" "sorted_wrt (<) ?sub"
    "set ?sub = set A - set B"
    using storedRows_refSub [OF mA mB t] sorted_mergeRows [OF sA sB]
      set_mergeRows [OF sA sB, of False True False] by simp_all
  have xor: "storedRows (refXor t A B) = Some ?xor" "sorted_wrt (<) ?xor"
    "set ?xor = (set A - set B) \<union> (set B - set A)"
    using storedRows_refXor [OF mA mB t] sorted_mergeRows [OF sA sB]
      set_mergeRows [OF sA sB, of False True True] by simp_all
  have A0: "\<forall>x\<in>set A. 0 \<le> x \<and> x < N" using assms(3) by simp
  have not: "storedRows (refNot t A N) = Some ?not" "sorted_wrt (<) ?not"
    "set ?not = {r. r < N} - set A"
    using storedRows_refNot [OF sA assms(3) t] notRows_props [OF sA A0] by simp_all
  have orAA: "storedRows (refOr t A A) = Some A"
  proof -
    have "mergeRows True True True A A = A"
      using sorted_mergeRows [OF sA sA, of True True True]
        set_mergeRows [OF sA sA, of True True True] sA
      by (intro strict_sorted_equal) auto
    with storedRows_refOr [OF mA mA t] show ?thesis by simp
  qed
  have subAA: "storedRows (refSub t A A) = Some []"
  proof -
    have "set (mergeRows False True False A A) = {}"
      using set_mergeRows [OF sA sA, of False True False] by simp
    with storedRows_refSub [OF mA mA t] show ?thesis by simp
  qed
  have law_xor: "storedRows (refSub t ?or ?and) = storedRows (refXor t A B)"
  proof -
    have mU: "rownr_max \<notin> set ?or" and mI: "rownr_max \<notin> set ?and"
      using or(3) "and"(3) mA mB by auto
    have "mergeRows False True False ?or ?and = ?xor"
    proof (rule strict_sorted_equal)
      show "sorted_wrt (<) ?xor" by (rule xor(2))
      show "sorted_wrt (<) (mergeRows False True False ?or ?and)"
        using or(2) "and"(2) by (rule sorted_mergeRows)
      have "set (mergeRows False True False ?or ?and) = set ?or - set ?and"
        using set_mergeRows [OF or(2) "and"(2), of False True False] by simp
      then show "set (mergeRows False True False ?or ?and) = set ?xor"
        using or(3) "and"(3) xor(3) by auto
    qed
    with storedRows_refSub [OF mU mI t] xor(1) show ?thesis by simp
  qed
  have law_not: "storedRows (refNot t ?not N) = Some A"
  proof -
    have b: "\<forall>x\<in>set ?not. x < N" using not(3) by simp
    then have b0: "\<forall>x\<in>set ?not. 0 \<le> x \<and> x < N" by simp
    have "notRows 0 ?not N = A"
    proof (rule strict_sorted_equal)
      show "sorted_wrt (<) A" by (rule sA)
      show "sorted_wrt (<) (notRows 0 ?not N)"
        using notRows_props [OF not(2) b0] by simp
      have "set (notRows 0 ?not N) = {r. r < N} - set ?not"
        using notRows_props [OF not(2) b0] by simp
      then show "set (notRows 0 ?not N) = set A"
        using not(3) assms(3) by auto
    qed
    with storedRows_refNot [OF not(2) b t] show ?thesis by simp
  qed
  from "and" or sub xor not orAA subAA law_xor law_not show ?thesis by blast
qed

theorem refTable_set_algebra_witness:
  "storedRows (refOr (RefTable_sized [] (Plain \<lparr>tableName = ''t'', nrow = 6, columns = []\<rparr>)
       True 0) [1, 3, 5] [1, 3, 5]) = Some [1, 3, 5]
   \<and> storedRows (refSub (RefTable_sized [] (Plain \<lparr>tableName = ''t'', nrow = 6, columns = []\<rparr>)
       True 0) [1, 3, 5] [1, 3, 5]) = Some []"
proof -
  let ?t = "RefTable_sized [] (Plain \<lparr>tableName = ''t'', nrow = 6, columns = []\<rparr>) True 0"
  have s: "sorted_wrt (<) [1, 3, 5 :: rownr_t]" by simp
  have b: "\<forall>r\<in>set [1, 3, 5 :: rownr_t]. r < 6" by simp
  have t: "nrrow_p ?t = 0" by (simp add: RefTable_sized_def)
  note laws = refTable_set_algebra [OF s s b b t]
  from laws have "storedRows (refOr ?t [1, 3, 5] [1, 3, 5]) = Some [1, 3, 5]" by blast
  moreover from laws have "storedRows (refSub ?t [1, 3, 5] [1, 3, 5]) = Some []" by blast
  ultimately show ?thesis by (rule conjI)
qed

lemma binarySearch_loop_spec:
  assumes "sorted_wrt (<) (take n c)" and "n \<le> length c"
    and "lo \<le> hi" and "hi \<le> n"
    and "\<forall>j<lo. c ! j < v" and "\<forall>j. hi \<le> j \<and> j < n \<longrightarrow> v < c ! j"
  shows "case binarySearch_loop c v lo hi of
           (found, i) \<Rightarrow>
             (found \<longrightarrow> i < n \<and> c ! i = v)
             \<and> (\<not> found \<longrightarrow> i \<le> n \<and> (\<forall>j<i. c ! j < v) \<and> (\<forall>j. i \<le> j \<and> j < n \<longrightarrow> v < c ! j))"
  using assms
proof (induction c v lo hi rule: binarySearch_loop.induct)
  case (1 c v lo hi)
  have mono: "c ! i < c ! j" if "i < j" "j < n" for i j
  proof -
    from that "1.prems"(2) have "j < length (take n c)" by simp
    with "1.prems"(1) that(1) have "take n c ! i < take n c ! j"
      by (rule sorted_wrt_nth_less)
    with that show ?thesis by simp
  qed
  show ?case
  proof (cases "lo < hi")
    case False
    with "1.prems" show ?thesis
      by (subst binarySearch_loop.simps) auto
  next
    case True
    let ?m = "(lo + hi) div 2"
    from True "1.prems" have m: "lo \<le> ?m" "?m < hi" "?m < n" by auto
    consider (lt) "c ! ?m < v" | (gt) "v < c ! ?m" | (eq) "c ! ?m = v" by fastforce
    then show ?thesis
    proof cases
      case lt
      have below: "\<forall>j<?m + 1. c ! j < v"
      proof (intro allI impI)
        fix j assume "j < ?m + 1"
        then consider "j = ?m" | "j < ?m" by fastforce
        then show "c ! j < v"
        proof cases
          case 1 with lt show ?thesis by simp
        next
          case 2
          from mono [OF 2 m(3)] lt show ?thesis by (rule less_trans)
        qed
      qed
      from "1.IH"(1) [OF True refl lt "1.prems"(1,2) _ "1.prems"(4) below "1.prems"(6)] m
      have "case binarySearch_loop c v (?m + 1) hi of
           (found, i) \<Rightarrow>
             (found \<longrightarrow> i < n \<and> c ! i = v)
             \<and> (\<not> found \<longrightarrow> i \<le> n \<and> (\<forall>j<i. c ! j < v) \<and> (\<forall>j. i \<le> j \<and> j < n \<longrightarrow> v < c ! j))"
        by simp
      then show ?thesis
        using True lt by (subst binarySearch_loop.simps) (simp add: Let_def)
    next
      case gt
      then have nlt: "\<not> c ! ?m < v" by simp
      have above: "\<forall>j. ?m \<le> j \<and> j < n \<longrightarrow> v < c ! j"
      proof (intro allI impI)
        fix j assume j: "?m \<le> j \<and> j < n"
        then consider "j = ?m" | "?m < j" by fastforce
        then show "v < c ! j"
        proof cases
          case 1 with gt show ?thesis by simp
        next
          case 2
          with j have "c ! ?m < c ! j" by (intro mono) auto
          with gt show ?thesis by (rule less_trans)
        qed
      qed
      from m "1.prems"(4) have "?m \<le> n" by simp
      from "1.IH"(2) [OF True refl nlt gt "1.prems"(1,2) m(1) this "1.prems"(5) above]
      show ?thesis
        using True gt nlt by (subst binarySearch_loop.simps) (simp add: Let_def)
    next
      case eq
      then show ?thesis
        using True m by (subst binarySearch_loop.simps) (simp add: Let_def)
    qed
  qed
qed


lemma unat_minus_1_uInt: "unat (- 1 :: uInt) = 4294967295"
  by (simp add: unsigned_minus_1_eq_mask mask_eq_exp_minus_1)

lemma get_at_entry:
  assumes v: "validIndex b colnr"
    and bs: "binarySearchBrackets (rowIndex_p b ! colnr) rownr (unat (indexUsed_p b ! colnr))
               = Inr (found, i)"
    and k: "k < unat (indexUsed_p b ! colnr)"
    and inx: "(if \<not> found then (word_of_nat i :: uInt) - 1 else word_of_nat i) = word_of_nat k"
  shows "getOffset b colnr rownr = Inr (offIndex_p b ! colnr ! k)"
    and "getInterval b colnr rownr bucketNrrow =
           Inr \<lparr>iv_index = word_of_nat i, iv_start = rowIndex_p b ! colnr ! k,
                iv_end = (if k + 1 = unat (indexUsed_p b ! colnr) then bucketNrrow
                          else rowIndex_p b ! colnr ! (k + 1)) - 1,
                iv_offset = offIndex_p b ! colnr ! k\<rparr>"
proof -
  let ?n = "unat (indexUsed_p b ! colnr)"
  from v have c: "colnr < length (rowIndex_p b)" "colnr < length (offIndex_p b)"
    "colnr < length (indexUsed_p b)" and len: "?n \<le> length (rowIndex_p b ! colnr)"
    "?n \<le> length (offIndex_p b ! colnr)"
    by (simp_all add: validIndex_def)
  from k have uk: "unat (word_of_nat k :: uInt) = k"
    by (intro le_unat_uoi [of _ "indexUsed_p b ! colnr"]) simp
  from k have uk1: "unat (word_of_nat k + 1 :: uInt) = k + 1"
    using le_unat_uoi [of "k + 1" "indexUsed_p b ! colnr"] by (simp add: add.commute)
  have eqn: "(word_of_nat k + 1 = indexUsed_p b ! colnr) \<longleftrightarrow> k + 1 = ?n"
    using uk1 by (metis word_unat_eq_iff)
  from uk k len have a1: "at (offIndex_p b ! colnr) (unat (word_of_nat k :: uInt))
      = Inr (offIndex_p b ! colnr ! k)"
    and a2: "at (rowIndex_p b ! colnr) (unat (word_of_nat k :: uInt))
      = Inr (rowIndex_p b ! colnr ! k)"
    by (simp_all add: at_def)
  show "getOffset b colnr rownr = Inr (offIndex_p b ! colnr ! k)"
    using c bs inx a1 by (simp add: getOffset_def Let_def)
  have a3: "at (rowIndex_p b ! colnr) (unat (word_of_nat k + 1 :: uInt))
      = Inr (rowIndex_p b ! colnr ! (k + 1))" if "k + 1 \<noteq> ?n"
    using that uk1 k len by (simp add: at_def)
  show "getInterval b colnr rownr bucketNrrow =
           Inr \<lparr>iv_index = word_of_nat i, iv_start = rowIndex_p b ! colnr ! k,
                iv_end = (if k + 1 = ?n then bucketNrrow
                          else rowIndex_p b ! colnr ! (k + 1)) - 1,
                iv_offset = offIndex_p b ! colnr ! k\<rparr>"
    using c bs inx a1 a2 a3 eqn by (simp add: getInterval_def Let_def)
qed

lemma get_before_first:
  assumes v: "validIndex b colnr"
    and bs: "binarySearchBrackets (rowIndex_p b ! colnr) rownr (unat (indexUsed_p b ! colnr))
               = Inr (False, 0)"
  shows "getOffset b colnr rownr = Inl IndexFault"
    and "getInterval b colnr rownr bucketNrrow = Inl IndexFault"
proof -
  from v have c: "colnr < length (rowIndex_p b)" "colnr < length (offIndex_p b)"
    "colnr < length (indexUsed_p b)"
    and len: "length (offIndex_p b ! colnr) < 2 ^ 32 - 1"
    by (simp_all add: validIndex_def)
  from len have a: "at (offIndex_p b ! colnr) (unat (- 1 :: uInt)) = Inl IndexFault"
    by (simp add: at_def unat_minus_1_uInt)
  show "getOffset b colnr rownr = Inl IndexFault"
    using c bs a by (simp add: getOffset_def Let_def)
  show "getInterval b colnr rownr bucketNrrow = Inl IndexFault"
    using c bs a by (simp add: getInterval_def Let_def)
qed


text \<open>
  C4 (as amended).  For a column whose index is well formed and a target row: when the
  column has entries and the first is not above the target, \<open>getOffset\<close> returns the
  offset paired with the greatest entry less than or equal to the target, and
  \<open>getInterval\<close> returns that entry as start, that offset, and as end the next entry
  minus one, or the number of rows of the bucket minus one (its last row) for the last
  entry.  When the column has no entry or the target is below the first entry, the code
  detects nothing: the index steps back from 0 to \<open>2^32 - 1\<close> and the offset block is
  read outside its elements, the unchecked access \<open>IndexFault\<close>.
\<close>

theorem get_greatest_entry:
  "validIndex b colnr \<Longrightarrow>
     (0 < unat (indexUsed_p b ! colnr) \<and> rowIndex_p b ! colnr ! 0 \<le> rownr \<longrightarrow>
        (\<exists>k index. k < unat (indexUsed_p b ! colnr)
           \<and> rowIndex_p b ! colnr ! k \<le> rownr
           \<and> (\<forall>j. j < unat (indexUsed_p b ! colnr) \<and> rowIndex_p b ! colnr ! j \<le> rownr
                  \<longrightarrow> j \<le> k)
           \<and> getOffset b colnr rownr = Inr (offIndex_p b ! colnr ! k)
           \<and> getInterval b colnr rownr bucketNrrow =
               Inr \<lparr>iv_index = index, iv_start = rowIndex_p b ! colnr ! k,
                    iv_end = (if k + 1 = unat (indexUsed_p b ! colnr) then bucketNrrow
                              else rowIndex_p b ! colnr ! (k + 1)) - 1,
                    iv_offset = offIndex_p b ! colnr ! k\<rparr>))
     \<and> (unat (indexUsed_p b ! colnr) = 0 \<or> rownr < rowIndex_p b ! colnr ! 0 \<longrightarrow>
          getOffset b colnr rownr = Inl IndexFault
          \<and> getInterval b colnr rownr bucketNrrow = Inl IndexFault)"
proof -
  assume v: "validIndex b colnr"
  let ?n = "unat (indexUsed_p b ! colnr)"
  let ?rows = "rowIndex_p b ! colnr"
  from v have len: "?n \<le> length ?rows" and srt: "sorted_wrt (<) (take ?n ?rows)"
    by (simp_all add: validIndex_def)
  obtain found i where r: "binarySearch_loop ?rows rownr 0 ?n = (found, i)"
    by (cases "binarySearch_loop ?rows rownr 0 ?n")
  with len have bs: "binarySearchBrackets ?rows rownr ?n = Inr (found, i)"
    by (simp add: binarySearchBrackets_def)
  have "case binarySearch_loop ?rows rownr 0 ?n of
           (found, i) \<Rightarrow>
             (found \<longrightarrow> i < ?n \<and> ?rows ! i = rownr)
             \<and> (\<not> found \<longrightarrow> i \<le> ?n \<and> (\<forall>j<i. ?rows ! j < rownr)
                  \<and> (\<forall>j. i \<le> j \<and> j < ?n \<longrightarrow> rownr < ?rows ! j))"
    by (rule binarySearch_loop_spec [OF srt len]) auto
  with r
  have fnd: "found \<Longrightarrow> i < ?n \<and> ?rows ! i = rownr"
    and nfd: "\<not> found \<Longrightarrow> i \<le> ?n \<and> (\<forall>j<i. ?rows ! j < rownr)
                \<and> (\<forall>j. i \<le> j \<and> j < ?n \<longrightarrow> rownr < ?rows ! j)"
    by simp_all
  have mono: "?rows ! j1 < ?rows ! j2" if "j1 < j2" "j2 < ?n" for j1 j2
  proof -
    from that len have "j2 < length (take ?n ?rows)" by simp
    with srt that(1) have "take ?n ?rows ! j1 < take ?n ?rows ! j2"
      by (rule sorted_wrt_nth_less)
    with that show ?thesis by simp
  qed
  have mono_le: "?rows ! j1 \<le> ?rows ! j2" if "j1 \<le> j2" "j2 < ?n" for j1 j2
    using that mono [of j1 j2] by (cases "j1 = j2") auto
  have found_entry: ?thesis
    if k: "k < ?n" and le: "?rows ! k \<le> rownr"
      and great: "\<forall>j. j < ?n \<and> ?rows ! j \<le> rownr \<longrightarrow> j \<le> k"
      and g1: "getOffset b colnr rownr = Inr (offIndex_p b ! colnr ! k)"
      and g2: "getInterval b colnr rownr bucketNrrow =
           Inr \<lparr>iv_index = index, iv_start = ?rows ! k,
                iv_end = (if k + 1 = ?n then bucketNrrow else ?rows ! (k + 1)) - 1,
                iv_offset = offIndex_p b ! colnr ! k\<rparr>"
    for k index
  proof (intro conjI impI)
    show "\<exists>k index. k < ?n \<and> ?rows ! k \<le> rownr
           \<and> (\<forall>j. j < ?n \<and> ?rows ! j \<le> rownr \<longrightarrow> j \<le> k)
           \<and> getOffset b colnr rownr = Inr (offIndex_p b ! colnr ! k)
           \<and> getInterval b colnr rownr bucketNrrow =
               Inr \<lparr>iv_index = index, iv_start = ?rows ! k,
                    iv_end = (if k + 1 = ?n then bucketNrrow else ?rows ! (k + 1)) - 1,
                    iv_offset = offIndex_p b ! colnr ! k\<rparr>"
      using k le great g1 g2 by blast
  next
    assume a: "?n = 0 \<or> rownr < ?rows ! 0"
    from k have "0 < ?n" by simp
    moreover have "?rows ! 0 \<le> rownr" using mono_le [of 0 k] k le by simp
    ultimately have False using a by (metis leD less_numeral_extra(3))
    then show "getOffset b colnr rownr = Inl IndexFault" ..
  next
    assume a: "?n = 0 \<or> rownr < ?rows ! 0"
    from k have "0 < ?n" by simp
    moreover have "?rows ! 0 \<le> rownr" using mono_le [of 0 k] k le by simp
    ultimately have False using a by (metis leD less_numeral_extra(3))
    then show "getInterval b colnr rownr bucketNrrow = Inl IndexFault" ..
  qed
  consider (F) found | (P) "\<not> found" "0 < i" | (Z) "\<not> found" "i = 0" by blast
  then show ?thesis
  proof cases
    case F
    with fnd have i: "i < ?n" "?rows ! i = rownr" by simp_all
    have inx: "(if \<not> found then (word_of_nat i :: uInt) - 1 else word_of_nat i) = word_of_nat i"
      using F by simp
    note g = get_at_entry [OF v bs i(1) inx]
    have great: "\<forall>j. j < ?n \<and> ?rows ! j \<le> rownr \<longrightarrow> j \<le> i"
    proof (intro allI impI)
      fix j assume j: "j < ?n \<and> ?rows ! j \<le> rownr"
      show "j \<le> i"
      proof (rule ccontr)
        assume "\<not> j \<le> i"
        then have "?rows ! i < ?rows ! j" using j by (intro mono) auto
        with j i show False by (metis leD)
      qed
    qed
    from i(2) have "?rows ! i \<le> rownr" by simp
    from found_entry [OF i(1) this great g] show ?thesis .
  next
    case P
    with nfd have i: "i \<le> ?n" "\<forall>j<i. ?rows ! j < rownr"
      "\<forall>j. i \<le> j \<and> j < ?n \<longrightarrow> rownr < ?rows ! j" by simp_all
    let ?k = "i - 1"
    from P i have k: "?k < ?n" "?rows ! ?k < rownr" by auto
    have "(word_of_nat i :: uInt) - 1 = word_of_nat ?k"
      using P(2) by (metis Suc_pred' add_diff_cancel_right' of_nat_Suc add.commute)
    then have inx: "(if \<not> found then (word_of_nat i :: uInt) - 1 else word_of_nat i)
        = word_of_nat ?k" using P(1) by simp
    note g = get_at_entry [OF v bs k(1) inx]
    have great: "\<forall>j. j < ?n \<and> ?rows ! j \<le> rownr \<longrightarrow> j \<le> ?k"
    proof (intro allI impI)
      fix j assume j: "j < ?n \<and> ?rows ! j \<le> rownr"
      show "j \<le> ?k"
      proof (rule ccontr)
        assume "\<not> j \<le> ?k"
        then have "i \<le> j" by simp
        with i(3) j have "rownr < ?rows ! j" by simp
        with j show False by (metis leD)
      qed
    qed
    from k(2) have "?rows ! ?k \<le> rownr" by simp
    from found_entry [OF k(1) this great g] show ?thesis .
  next
    case Z
    with nfd have all: "\<forall>j. j < ?n \<longrightarrow> rownr < ?rows ! j" by simp
    from bs Z have bs0: "binarySearchBrackets ?rows rownr ?n = Inr (False, 0)" by simp
    note g = get_before_first [OF v bs0]
    from all have "\<not> (0 < ?n \<and> ?rows ! 0 \<le> rownr)" by (auto simp: not_le)
    with g show ?thesis by blast
  qed
qed


theorem get_greatest_entry_witness:
  "(\<exists>k. k < 3
      \<and> getOffset \<lparr>dataLeng_p = 12, indexLeng_p = 44, rowIndex_p = [[0, 3, 7, 0]],
            offIndex_p = [[0, 4, 8, 0]], indexUsed_p = [3], data_p = []\<rparr> 0 5
          = Inr ([0, 4, 8, 0] ! k))
   \<and> getOffset \<lparr>dataLeng_p = 12, indexLeng_p = 44, rowIndex_p = [[2, 3, 7, 0]],
         offIndex_p = [[0, 4, 8, 0]], indexUsed_p = [3], data_p = []\<rparr> 0 1
       = Inl IndexFault"
proof -
  let ?b = "\<lparr>dataLeng_p = 12, indexLeng_p = 44, rowIndex_p = [[0, 3, 7, 0]],
            offIndex_p = [[0, 4, 8, 0]], indexUsed_p = [3], data_p = []\<rparr>"
  let ?c = "\<lparr>dataLeng_p = 12, indexLeng_p = 44, rowIndex_p = [[2, 3, 7, 0]],
            offIndex_p = [[0, 4, 8, 0]], indexUsed_p = [3], data_p = []\<rparr>"
  have vb: "validIndex ?b 0" and vc: "validIndex ?c 0"
    by (simp_all add: validIndex_def)
  have hb: "0 < unat (indexUsed_p ?b ! 0) \<and> rowIndex_p ?b ! 0 ! 0 \<le> 5" by simp
  have hc: "unat (indexUsed_p ?c ! 0) = 0 \<or> 1 < rowIndex_p ?c ! 0 ! 0" by simp
  from get_greatest_entry [OF vb, of 5 10, THEN conjunct1, THEN mp, OF hb]
  obtain k where "k < unat (indexUsed_p ?b ! 0)"
    "getOffset ?b 0 5 = Inr (offIndex_p ?b ! 0 ! k)" by blast
  then have 1: "\<exists>k. k < 3 \<and> getOffset ?b 0 5 = Inr ([0, 4, 8, 0] ! k)" by auto
  from get_greatest_entry [OF vc, of 1 10, THEN conjunct2, THEN mp, OF hc]
  have 2: "getOffset ?c 0 1 = Inl IndexFault" by blast
  from 1 2 show ?thesis by (rule conjI)
qed

text \<open>
  C4 as stated has a target row below the first entry end in an internal-consistency
  error.  With entries at rows 2, 3 and 7 and target row 1 the search finds no entry at
  index 0, the index steps back to \<open>2^32 - 1\<close>, and \<open>getOffset\<close> and \<open>getInterval\<close>
  read the offset block there: no exception is thrown, the access is unchecked.
\<close>

theorem get_below_first_entry_unchecked:
  "getOffset \<lparr>dataLeng_p = 12, indexLeng_p = 44, rowIndex_p = [[2, 3, 7, 0]],
       offIndex_p = [[0, 4, 8, 0]], indexUsed_p = [3], data_p = []\<rparr> 0 1
     = Inl IndexFault
   \<and> getInterval \<lparr>dataLeng_p = 12, indexLeng_p = 44, rowIndex_p = [[2, 3, 7, 0]],
       offIndex_p = [[0, 4, 8, 0]], indexUsed_p = [3], data_p = []\<rparr> 0 1 10
     = Inl IndexFault
   \<and> \<not> thrown IndexFault
   \<and> binarySearchBrackets [2, 3, 7, 0] 1 3 = Inr (False, 0)
   \<and> unat ((0 :: uInt) - 1) = 4294967295"
  by (simp add: getOffset_def getInterval_def binarySearchBrackets_def
      binarySearch_loop.simps at_def unat_minus_1_uInt Let_def)

subsection \<open>Writing a bucket and reading it back\<close>

subsection \<open>Canonical values\<close>

lemma of_be_uInt_be: "of_be_uInt (be_uInt w) = w"
  unfolding be_uInt_def of_be_uInt.simps
proof (rule bit_word_eqI)
  fix n assume "n < LENGTH(32)"
  then consider "n < 8" | "8 \<le> n" "n < 16" | "16 \<le> n" "n < 24" | "24 \<le> n" "n < 32"
    by fastforce
  then show "bit (push_bit 24 (ucast (ucast (drop_bit 24 w) :: uChar)) OR
        push_bit 16 (ucast (ucast (drop_bit 16 w) :: uChar)) OR
        push_bit 8 (ucast (ucast (drop_bit 8 w) :: uChar)) OR ucast (ucast w :: uChar) :: uInt) n
      = bit w n"
    by cases (auto simp: bit_simps)
qed

lemma of_be_rownr_be: "of_be_rownr (be_rownr w) = w"
  unfolding be_rownr_def of_be_rownr.simps
proof (rule bit_word_eqI)
  fix n assume "n < LENGTH(64)"
  then consider "n < 8" | "8 \<le> n" "n < 16" | "16 \<le> n" "n < 24" | "24 \<le> n" "n < 32"
    | "32 \<le> n" "n < 40" | "40 \<le> n" "n < 48" | "48 \<le> n" "n < 56" | "56 \<le> n" "n < 64"
    by fastforce
  then show "bit (push_bit 56 (ucast (ucast (drop_bit 56 w) :: uChar)) OR
     push_bit 48 (ucast (ucast (drop_bit 48 w) :: uChar)) OR
     push_bit 40 (ucast (ucast (drop_bit 40 w) :: uChar)) OR
     push_bit 32 (ucast (ucast (drop_bit 32 w) :: uChar)) OR
     push_bit 24 (ucast (ucast (drop_bit 24 w) :: uChar)) OR
     push_bit 16 (ucast (ucast (drop_bit 16 w) :: uChar)) OR
     push_bit 8 (ucast (ucast (drop_bit 8 w) :: uChar)) OR ucast (ucast w :: uChar) :: rownr_t) n
      = bit w n"
    by cases (auto simp: bit_simps)
qed

lemma length_writeuInt [simp]: "length (writeuInt be w) = 4"
  by (simp add: writeuInt_def be_uInt_def)

lemma length_writeRownr [simp]: "length (writeRownr be w) = 8"
  by (simp add: writeRownr_def be_rownr_def)

lemma readuInt_writeuInt [simp]: "readuInt be (writeuInt be w) = w"
  by (simp add: readuInt_def writeuInt_def of_be_uInt_be)

lemma readRownr_writeRownr [simp]: "readRownr be (writeRownr be w) = w"
  by (simp add: readRownr_def writeRownr_def of_be_rownr_be)


lemma length_concat_fixed:
  "(\<And>x. length (f x) = k) \<Longrightarrow> length (concat (map f xs)) = k * length xs"
  by (induction xs) auto





subsection \<open>Writes into and reads from a buffer\<close>

lemma poke_Inr:
  assumes "poke st pos bytes = Inr st'"
  shows "st' = take pos st @ bytes @ drop (pos + length bytes) st"
    and "length st' = length st" and "pos + length bytes \<le> length st"
  using assms by (auto simp: poke_def split: if_splits)

lemma peek_append:
  "length pre = pos \<Longrightarrow> peek (pre @ bytes @ rest) pos (length bytes) = Inr bytes"
  by (simp add: peek_def)

lemma bindE_Inr [simp]: "bindE (Inr x) f = f x"
  by (simp add: bindE_def)

lemma bindE_Inl [simp]: "bindE (Inl e) f = Inl e"
  by (simp add: bindE_def)



lemma length_columnImage:
  "length (columnImage be u b i)
     = 4 + (if u then 4 else 8) * length (take (unat (indexUsed_p b ! i)) (rowIndex_p b ! i))
         + 4 * length (take (unat (indexUsed_p b ! i)) (offIndex_p b ! i))"
  by (simp add: columnImage_def length_concat_fixed del: length_take)

lemma indexImage_Nil [simp]: "indexImage be u b [] = []"
  by (simp add: indexImage_def)










lemma top_bit_nonzero: "(0x80000000 :: uInt) \<noteq> 0"
  by simp





lemma unat_uIntSize [simp]: "unat uIntSize = 4"
  by (simp add: uIntSize_def)








subsection \<open>Saving and restoring statement nodes\<close>

lemmas restore_eval = bindR_def restoreSuper_def restoreConst_def saveSuper_def
  TaQLQueryNodeRep_new_def

text \<open>
  C9.  Every kind of node is said to be restored by \<open>restore\<close> equal to the node
  \<open>save\<close> was given.  The five statements derived from \<open>TaQLQueryNodeRep\<close> carry
  its flags \<open>itsBrackets\<close>, \<open>itsNoExecute\<close> and \<open>itsFromExecute\<close>.  Select, count
  and create table save them with \<open>saveSuper\<close> and restore them; alter table and
  table concatenation do not: an \<open>ALTER TABLE t.tab ADD ROW 5\<close> in brackets is
  restored without brackets, and a table concatenation with \<open>itsNoExecute\<close> and
  \<open>itsFromExecute\<close> set is restored with both cleared.
\<close>

theorem altTab_flags_not_saved:
  "restoreNode 12
     (saveNode (AltTab Null (Table (ConstString ''t.tab'' True) []) Null
        (Multi False [] [] '','' [] 1 [AddRow (ConstInt 5)])
        \<lparr>itsBrackets = True, itsNoExecute = False, itsFromExecute = False\<rparr>))
     = Some (Inr (AltTab Null (Table (ConstString ''t.tab'' True) []) Null
        (Multi False [] [] '','' [] 1 [AddRow (ConstInt 5)])
        \<lparr>itsBrackets = False, itsNoExecute = False, itsFromExecute = False\<rparr>, []))
   \<and> restoreNode 12
     (saveNode (ConcTab ''c.tab''
        (Multi False [] [] '','' [] 1 [Table (ConstString ''t.tab'' True) []]) Null
        \<lparr>itsBrackets = False, itsNoExecute = True, itsFromExecute = True\<rparr>))
     = Some (Inr (ConcTab ''c.tab''
        (Multi False [] [] '','' [] 1 [Table (ConstString ''t.tab'' True) []]) Null
        \<lparr>itsBrackets = False, itsNoExecute = False, itsFromExecute = False\<rparr>, []))
   \<and> restoreNode 12
     (saveNode (Count Null Null
        (Multi False [] [] '','' [] 1 [Table (ConstString ''t.tab'' True) []]) Null
        \<lparr>itsBrackets = True, itsNoExecute = False, itsFromExecute = False\<rparr>))
     = Some (Inr (Count Null Null
        (Multi False [] [] '','' [] 1 [Table (ConstString ''t.tab'' True) []]) Null
        \<lparr>itsBrackets = True, itsNoExecute = False, itsFromExecute = False\<rparr>, []))
   \<and> restoreNode 12
     (saveNode (Select Null Null
        (Multi False [] [] '','' [] 1 [Table (ConstString ''t.tab'' True) []]) Null
        (ConstBool True) Null Null Null Null Null Null
        \<lparr>itsBrackets = True, itsNoExecute = False, itsFromExecute = False\<rparr>))
     = Some (Inr (Select Null Null
        (Multi False [] [] '','' [] 1 [Table (ConstString ''t.tab'' True) []]) Null
        (ConstBool True) Null Null Null Null Null Null
        \<lparr>itsBrackets = True, itsNoExecute = False, itsFromExecute = False\<rparr>, []))
   \<and> restoreNode 12
     (saveNode (CreTab Null (ConstString ''n.tab'' True) Null Null Null Null
        \<lparr>itsBrackets = True, itsNoExecute = False, itsFromExecute = False\<rparr>))
     = Some (Inr (CreTab Null (ConstString ''n.tab'' True) Null Null Null Null
        \<lparr>itsBrackets = True, itsNoExecute = False, itsFromExecute = False\<rparr>, []))"
  by (simp add: restore_eval eval_nat_numeral)

end
